theory Spec2Isabelle
  imports Complex_Main "HOL-Library.Word" "HOL-Library.Sublist" "HOL-Library.AList"
begin

unbundle bit_operations_syntax

section \<open>Data model of package utils\<close>

text \<open>
  A Go \<open>error\<close> value is carried by its message (what \<open>err.Error()\<close> and the verb
  \<open>%v\<close> print); a nil error is \<open>None\<close>.
\<close>

type_synonym error = string

text \<open>
  A Go slice is either nil or backed by an array. \<open>var products []Product\<close> is the nil
  slice, \<open>append\<close> always gives a slice that is not nil, and \<open>len\<close> of nil is 0.
\<close>

datatype 'a slice = nil | Slice "'a list"

fun append_slice :: "'a slice \<Rightarrow> 'a \<Rightarrow> 'a slice" where
  "append_slice nil x = Slice [x]"
| "append_slice (Slice xs) x = Slice (xs @ [x])"

fun len :: "'a slice \<Rightarrow> nat" where
  "len nil = 0"
| "len (Slice xs) = length xs"

fun elems :: "'a slice \<Rightarrow> 'a list" where
  "elems nil = []"
| "elems (Slice xs) = xs"

text \<open>
  \<open>type Product struct\<close>: \<open>uint\<close> and \<open>int\<close> are 64-bit words; the \<open>float32\<close> price
  is carried as its IEEE-754 bit pattern (the program never computes with it).
\<close>

record Product =
  ID :: "64 word"
  Name :: string
  Quantity :: "64 word"
  Price :: "32 word"

record Response =
  Products :: "Product slice"
  SlowStatus :: int
  SlowMessage :: string
  ProcessStatus :: string

section \<open>Tracing\<close>

text \<open>
  What a request does to the outside world is recorded as a trace of events, in the
  order in which they happen: the calls on spans (\<open>Tracer.Start\<close>, \<open>span.SetAttributes\<close>,
  \<open>span.End\<close>, each with the name of the span), \<open>time.Sleep\<close> with its milliseconds,
  the query sent to the database, \<open>rows.Close\<close>, the \<open>go\<close> statement, and the
  handoff on the channel \<open>slowChan\<close>.
\<close>

datatype attr_value = attribute_String string | attribute_Int int

datatype event =
    Start string
  | SetAttributes string string attr_value
  | End string
  | Sleep nat
  | QueryContext string
  | RowsClose
  | Go
  | Handoff

type_synonym trace = "event list"

section \<open>The store\<close>

text \<open>
  \<open>var DB *sql.DB\<close> is nil (\<open>None\<close>) until \<open>InitDB\<close> has run. An open handle answers
  \<open>DB.QueryContext\<close> with an error or with a cursor. The cursor is what the loop
  \<open>for rows.Next() { rows.Scan(...) }\<close> sees of it: the rows that \<open>Next\<close> delivers, each
  with the outcome of its \<open>Scan\<close> (an error, or the scanned product), and the value
  of \<open>rows.Err()\<close> once \<open>Next\<close> has returned false.
\<close>

record Rows =
  Next :: "(error + Product) list"
  Err :: "error option"

type_synonym sqlDB = "error + Rows"

text \<open>The loop of \<open>GetAllProducts\<close>: it stops at the first \<open>Scan\<close> that fails.\<close>

fun scan_rows :: "(error + Product) list \<Rightarrow> Product slice \<Rightarrow> error + Product slice" where
  "scan_rows [] products = Inr products"
| "scan_rows (Inl err # rs) products = Inl err"
| "scan_rows (Inr p # rs) products = scan_rows rs (append_slice products p)"

text \<open>
  Every function that traces returns, next to its Go results, the events of the call
  in their order; the caller appends them to the trace of the request.
  \<open>GetAllProducts\<close> returns the pair \<open>([]Product, error)\<close>. The deferred \<open>span.End()\<close>
  and \<open>rows.Close()\<close> are written out at every return, last deferred first.
\<close>

definition GetAllProducts :: "sqlDB option \<Rightarrow> (Product slice \<times> error option) \<times> trace" where
  "GetAllProducts DB =
    (let t = [Start ''GetAllProducts''] in
     case DB of
       None \<Rightarrow>
         ((nil, Some ''database connection not initialized; call InitDB first''),
          t @ [SetAttributes ''GetAllProducts'' ''error'' (attribute_String ''database not initialized''),
               End ''GetAllProducts'',
               End ''GetAllProducts''])
     | Some db \<Rightarrow>
        (let query = ''SELECT id, name, quantity, price FROM products'';
             t = t @ [QueryContext query] in
         case db of
           Inl err \<Rightarrow>
             ((nil, Some (''error querying products: '' @ err)),
              t @ [SetAttributes ''GetAllProducts'' ''error'' (attribute_String err),
                   End ''GetAllProducts''])
         | Inr rows \<Rightarrow>
            (case scan_rows (Next rows) nil of
               Inl err \<Rightarrow>
                 ((nil, Some (''error scanning product row: '' @ err)),
                  t @ [SetAttributes ''GetAllProducts'' ''error'' (attribute_String err),
                       RowsClose, End ''GetAllProducts''])
             | Inr products \<Rightarrow>
                (case Err rows of
                   Some err \<Rightarrow>
                     ((nil, Some (''error iterating over product rows: '' @ err)),
                      t @ [SetAttributes ''GetAllProducts'' ''error'' (attribute_String err),
                           RowsClose, End ''GetAllProducts''])
                 | None \<Rightarrow>
                     ((products, None),
                      t @ [SetAttributes ''GetAllProducts'' ''product_count''
                             (attribute_Int (int (len products))),
                           RowsClose, End ''GetAllProducts''])))))"

section \<open>The two stages with injected faults\<close>

text \<open>
  \<open>rand.Float32()\<close> is a draw from \<open>[0, 1)\<close>; the model takes its exact value as a
  rational. For a draw that is a \<open>float32\<close>, comparing it with the constants \<open>0.2\<close>
  and \<open>0.3\<close> rounded to \<open>float32\<close> (both round upwards) gives the same answer as
  comparing it with \<open>2/10\<close> and \<open>3/10\<close>.
\<close>

definition validateRequest :: "rat \<Rightarrow> error option \<times> trace" where
  "validateRequest draw =
    (let t = [Start ''validateRequest''];
         t = t @ [Sleep 1000] in
     if draw < 2 / 10
     then (Some ''request validation failed'',
           t @ [SetAttributes ''validateRequest'' ''error'' (attribute_String ''validation failed''),
                End ''validateRequest''])
     else (None, t @ [End ''validateRequest'']))"

definition processData :: "rat \<Rightarrow> Product slice \<Rightarrow> (string \<times> error option) \<times> trace" where
  "processData draw products =
    (let t = [Start ''processData''];
         t = t @ [Sleep 1500] in
     if draw < 3 / 10
     then ((''failed'', Some ''data processing failed''),
           t @ [SetAttributes ''processData'' ''error'' (attribute_String ''processing failed''),
                End ''processData''])
     else ((''success'', None),
           t @ [SetAttributes ''processData'' ''processed_count''
                  (attribute_Int (int (len products))),
                End ''processData'']))"

section \<open>Response writers\<close>

text \<open>
  An \<open>http.ResponseWriter\<close> as \<open>httptest.ResponseRecorder\<close> implements it: the status
  code is fixed by the first \<open>WriteHeader\<close>, every later \<open>WriteHeader\<close> is ignored; the
  first \<open>Write\<close> without a status writes 200 first; the header map that goes out is
  the one of that moment (\<open>snapHeader\<close>). \<open>Body\<close> is the sequence of writes.
\<close>

record 'b ResponseRecorder =
  Code :: int
  HeaderMap :: "(string \<times> string) list"
  Body :: "'b list"
  wroteHeader :: bool
  snapHeader :: "(string \<times> string) list"

definition NewRecorder :: "'b ResponseRecorder" where
  "NewRecorder = \<lparr>Code = 200, HeaderMap = [], Body = [], wroteHeader = False, snapHeader = []\<rparr>"

definition Header_Set :: "string \<Rightarrow> string \<Rightarrow> 'b ResponseRecorder \<Rightarrow> 'b ResponseRecorder" where
  "Header_Set k v rw = rw\<lparr>HeaderMap := AList.update k v (HeaderMap rw)\<rparr>"

definition WriteHeader :: "int \<Rightarrow> 'b ResponseRecorder \<Rightarrow> 'b ResponseRecorder" where
  "WriteHeader code rw =
    (if wroteHeader rw then rw
     else rw\<lparr>Code := code, wroteHeader := True, snapHeader := HeaderMap rw\<rparr>)"

definition Write :: "'b \<Rightarrow> 'b ResponseRecorder \<Rightarrow> 'b ResponseRecorder" where
  "Write buf rw =
    (let rw = (if wroteHeader rw then rw else WriteHeader 200 rw) in
     rw\<lparr>Body := Body rw @ [buf]\<rparr>)"

text \<open>
  The writes of the aggregation handler are plain text (\<open>http.Error\<close>) or one JSON
  document with its closing newline (\<open>json.Encoder.Encode\<close>). A document is kept as
  the value it encodes: the rendering of numbers and the escaping of strings are not
  modelled.
\<close>

datatype json =
    JNull
  | JNumber int
  | JFloat32 "32 word"
  | JString string
  | JArray "json list"
  | JObject "(string \<times> json) list"

datatype chunk = Text string | JSON json

text \<open>\<open>http.Error\<close>: two headers, the status, then the message and a newline.\<close>

definition http_Error :: "string \<Rightarrow> int \<Rightarrow> chunk ResponseRecorder \<Rightarrow> chunk ResponseRecorder" where
  "http_Error err code rw =
    (let rw = Header_Set ''Content-Type'' ''text/plain; charset=utf-8'' rw;
         rw = Header_Set ''X-Content-Type-Options'' ''nosniff'' rw;
         rw = WriteHeader code rw in
     Write (Text (err @ [CHR 0x0A])) rw)"

section \<open>Encoding the response\<close>

text \<open>
  \<open>encoding/json\<close> encodes a nil slice as \<open>null\<close> and any other slice as an array, in
  the order of the struct's fields with the names of their tags. The only values of
  \<open>Response\<close> it refuses are prices that are not finite (exponent bits all set):
  \<open>json: unsupported value: NaN\<close>, \<open>+Inf\<close> or \<open>-Inf\<close>.
\<close>

definition unsupported_float32 :: "32 word \<Rightarrow> string option" where
  "unsupported_float32 f =
    (if take_bit 8 (drop_bit 23 f) \<noteq> 255 then None
     else if take_bit 23 f \<noteq> 0 then Some ''NaN''
     else if bit f 31 then Some ''-Inf''
     else Some ''+Inf'')"

definition marshal_Product :: "Product \<Rightarrow> error + json" where
  "marshal_Product p =
    (case unsupported_float32 (Price p) of
       Some str \<Rightarrow> Inl (''json: unsupported value: '' @ str)
     | None \<Rightarrow>
         Inr (JObject [(''id'', JNumber (uint (ID p))),
                       (''name'', JString (Name p)),
                       (''quantity'', JNumber (sint (Quantity p))),
                       (''price'', JFloat32 (Price p))]))"

fun marshal_Products :: "Product list \<Rightarrow> error + json list" where
  "marshal_Products [] = Inr []"
| "marshal_Products (p # ps) =
    (case marshal_Product p of
       Inl err \<Rightarrow> Inl err
     | Inr j \<Rightarrow> (case marshal_Products ps of Inl err \<Rightarrow> Inl err | Inr js \<Rightarrow> Inr (j # js)))"

definition marshal_Response :: "Response \<Rightarrow> error + json" where
  "marshal_Response resp =
    (case (case Products resp of
             nil \<Rightarrow> Inr JNull
           | Slice ps \<Rightarrow> (case marshal_Products ps of Inl err \<Rightarrow> Inl err | Inr js \<Rightarrow> Inr (JArray js))) of
       Inl err \<Rightarrow> Inl err
     | Inr products \<Rightarrow>
         Inr (JObject [(''products'', products),
                       (''slow_status'', JNumber (SlowStatus resp)),
                       (''slow_message'', JString (SlowMessage resp)),
                       (''process_status'', JString (ProcessStatus resp))]))"

text \<open>\<open>json.NewEncoder(w).Encode(resp)\<close>: nothing is written when the value is refused.\<close>

definition Encode :: "Response \<Rightarrow> chunk ResponseRecorder \<Rightarrow> error option \<times> chunk ResponseRecorder" where
  "Encode resp rw =
    (case marshal_Response resp of
       Inl err \<Rightarrow> (Some err, rw)
     | Inr j \<Rightarrow> (None, Write (JSON j) rw))"

section \<open>The dependent service\<close>

text \<open>
  \<open>HandleSlowAPI\<close> of package otelsetup, on the recorder the handler gives it; \<open>now\<close>
  is \<open>time.Now().Format(time.RFC3339)\<close>.
\<close>

definition HandleSlowAPI :: "string \<Rightarrow> string ResponseRecorder \<Rightarrow> string ResponseRecorder \<times> trace" where
  "HandleSlowAPI now rw =
    (let t = [Sleep 2000];
         rw = WriteHeader 200 rw;
         rw = Write (''Slow API response at '' @ now @ [CHR 0x0A]) rw in
     (rw, t))"

section \<open>The aggregation handler\<close>

text \<open>
  What one request meets: the two random draws, the store handle and the clock of
  the dependent service.
\<close>

record env =
  draw_validateRequest :: rat
  draw_processData :: rat
  DB :: "sqlDB option"
  now :: string

record slowResult =
  status :: int
  msg :: string

text \<open>
  \<open>GetProductsHandler\<close> runs on the request's goroutine and starts a second one with
  the \<open>go\<close> statement. Each goroutine is a program counter: for the handler the
  steps of its comments (\<open>Step 1\<close> to \<open>Step 5\<close>, then the response) with the local
  variables alive there; for the anonymous function the call of \<open>HandleSlowAPI\<close> and
  the send on \<open>slowChan\<close>.
\<close>

datatype handler_pc =
    Step1
  | Step2
  | Step3 "Product slice"
  | Step4 "Product slice"
  | Step5 "Product slice" string
  | Respond "Product slice" string slowResult
  | Returned

datatype goroutine_pc =
    NotStarted
  | Calling
  | Sending slowResult
  | Exited

record state =
  handler :: handler_pc
  goroutine :: goroutine_pc
  w :: "chunk ResponseRecorder"
  tr :: trace

definition init :: state where
  "init = \<lparr>handler = Step1, goroutine = NotStarted, w = NewRecorder, tr = []\<rparr>"

text \<open>
  \<open>slowChan := make(chan slowResult)\<close> has no buffer: a send and a receive complete
  together, in one step of both goroutines, and each waits for the other.
\<close>

definition handoff :: "Product slice \<Rightarrow> string \<Rightarrow> slowResult \<Rightarrow> state \<Rightarrow> state" where
  "handoff products processStatus slow s =
    s\<lparr>handler := Respond products processStatus slow, goroutine := Exited,
      tr := tr s @ [Handoff]\<rparr>"

text \<open>
  One step of the handler; \<open>None\<close> when it cannot move (it waits on the channel, or
  it has returned). The deferred \<open>span.End()\<close> is written out at every return.
\<close>

definition GetProductsHandler :: "env \<Rightarrow> state \<Rightarrow> state option" where
  "GetProductsHandler e s =
    (case handler s of
       Step1 \<Rightarrow>
        (let (err, t) = validateRequest (draw_validateRequest e);
             t = tr s @ [Start ''GetProductsHandler''] @ t in
         case err of
           Some err \<Rightarrow>
             Some (s\<lparr>handler := Returned,
                     w := http_Error err 400 (w s),
                     tr := t @ [SetAttributes ''GetProductsHandler'' ''error'' (attribute_String err),
                                End ''GetProductsHandler'']\<rparr>)
         | None \<Rightarrow> Some (s\<lparr>handler := Step2, tr := t\<rparr>))
     | Step2 \<Rightarrow>
        (let ((products, err), t) = GetAllProducts (DB e);
             t = tr s @ t in
         case err of
           Some err \<Rightarrow>
             Some (s\<lparr>handler := Returned,
                     w := http_Error (''Failed to fetch products: '' @ err) 500 (w s),
                     tr := t @ [SetAttributes ''GetProductsHandler'' ''error'' (attribute_String err),
                                End ''GetProductsHandler'']\<rparr>)
         | None \<Rightarrow> Some (s\<lparr>handler := Step3 products, tr := t\<rparr>))
     | Step3 products \<Rightarrow>
         Some (s\<lparr>handler := Step4 products, goroutine := Calling, tr := tr s @ [Go]\<rparr>)
     | Step4 products \<Rightarrow>
        (let ((processStatus, err), t) = processData (draw_processData e) products;
             t = tr s @ t in
         case err of
           Some err \<Rightarrow>
             Some (s\<lparr>handler := Returned,
                     w := http_Error (''Failed to process data: '' @ err) 500 (w s),
                     tr := t @ [SetAttributes ''GetProductsHandler'' ''error'' (attribute_String err),
                                End ''GetProductsHandler'']\<rparr>)
         | None \<Rightarrow> Some (s\<lparr>handler := Step5 products processStatus, tr := t\<rparr>))
     | Step5 products processStatus \<Rightarrow>
        (case goroutine s of
           Sending slow \<Rightarrow> Some (handoff products processStatus slow s)
         | _ \<Rightarrow> None)
     | Respond products processStatus slow \<Rightarrow>
        (let resp = \<lparr>Products = products, SlowStatus = status slow,
                     SlowMessage = msg slow, ProcessStatus = processStatus\<rparr>;
             rw = Header_Set ''Content-Type'' ''application/json'' (w s);
             rw = WriteHeader 200 rw;
             (err, rw) = Encode resp rw in
         case err of
           Some err \<Rightarrow>
             Some (s\<lparr>handler := Returned,
                     w := http_Error (''Failed to encode response: '' @ err) 500 rw,
                     tr := tr s @ [SetAttributes ''GetProductsHandler'' ''error'' (attribute_String err),
                                   End ''GetProductsHandler'']\<rparr>)
         | None \<Rightarrow>
             Some (s\<lparr>handler := Returned, w := rw, tr := tr s @ [End ''GetProductsHandler'']\<rparr>))
     | Returned \<Rightarrow> None)"

text \<open>One step of the anonymous function started by the \<open>go\<close> statement.\<close>

definition goroutine_step :: "env \<Rightarrow> state \<Rightarrow> state option" where
  "goroutine_step e s =
    (case goroutine s of
       NotStarted \<Rightarrow> None
     | Calling \<Rightarrow>
        (let recorder = NewRecorder;
             (recorder, t) = HandleSlowAPI (now e) recorder in
         Some (s\<lparr>goroutine := Sending \<lparr>status = Code recorder, msg = concat (Body recorder)\<rparr>,
                 tr := tr s @ t\<rparr>))
     | Sending slow \<Rightarrow>
        (case handler s of
           Step5 products processStatus \<Rightarrow> Some (handoff products processStatus slow s)
         | _ \<Rightarrow> None)
     | Exited \<Rightarrow> None)"

text \<open>
  A schedule names the goroutine that is given the next turn; a goroutine that
  cannot move leaves the state as it is. \<open>run\<close> follows a schedule.
\<close>

datatype thread = Handler | Goroutine

definition step :: "env \<Rightarrow> thread \<Rightarrow> state \<Rightarrow> state option" where
  "step e t s = (case t of Handler \<Rightarrow> GetProductsHandler e s | Goroutine \<Rightarrow> goroutine_step e s)"

definition turn :: "env \<Rightarrow> thread \<Rightarrow> state \<Rightarrow> state" where
  "turn e t s = (case step e t s of None \<Rightarrow> s | Some s' \<Rightarrow> s')"

fun run :: "env \<Rightarrow> thread list \<Rightarrow> state \<Rightarrow> state" where
  "run e [] s = s"
| "run e (t # ts) s = run e ts (turn e t s)"

section \<open>Invariants of the runs\<close>

text \<open>
  What the goroutine hands over: the code and the body of a fresh recorder after
  \<open>HandleSlowAPI\<close>.
\<close>

definition dependent_result :: "env \<Rightarrow> slowResult" where
  "dependent_result e =
    (let (recorder, t) = HandleSlowAPI (now e) NewRecorder in
     \<lparr>status = Code recorder, msg = concat (Body recorder)\<rparr>)"

text \<open>
  \<open>coherent\<close> ties every program counter to what the stages returned, to the state
  of the goroutine and to the response written so far. It holds in every state a
  schedule can reach.
\<close>

definition coherent :: "env \<Rightarrow> state \<Rightarrow> bool" where
  "coherent e s =
    (let verr = fst (validateRequest (draw_validateRequest e));
         (ps, ferr) = fst (GetAllProducts (DB e));
         (st, perr) = fst (processData (draw_processData e) ps);
         slow = dependent_result e;
         started = (goroutine s = Calling \<or> goroutine s = Sending slow) in
     case handler s of
       Step1 \<Rightarrow> goroutine s = NotStarted \<and> w s = NewRecorder
     | Step2 \<Rightarrow> verr = None \<and> goroutine s = NotStarted \<and> w s = NewRecorder
     | Step3 products \<Rightarrow>
         verr = None \<and> ferr = None \<and> products = ps \<and> goroutine s = NotStarted \<and>
         w s = NewRecorder
     | Step4 products \<Rightarrow>
         verr = None \<and> ferr = None \<and> products = ps \<and> started \<and> w s = NewRecorder
     | Step5 products processStatus \<Rightarrow>
         verr = None \<and> ferr = None \<and> perr = None \<and> products = ps \<and> processStatus = st \<and>
         started \<and> w s = NewRecorder
     | Respond products processStatus sl \<Rightarrow>
         verr = None \<and> ferr = None \<and> perr = None \<and> products = ps \<and> processStatus = st \<and>
         sl = slow \<and> goroutine s = Exited \<and> w s = NewRecorder
     | Returned \<Rightarrow>
        (case verr of
           Some err \<Rightarrow> goroutine s = NotStarted \<and> w s = http_Error err 400 NewRecorder
         | None \<Rightarrow>
            (case ferr of
               Some err \<Rightarrow>
                 goroutine s = NotStarted \<and>
                 w s = http_Error (''Failed to fetch products: '' @ err) 500 NewRecorder
             | None \<Rightarrow>
                (case perr of
                   Some err \<Rightarrow>
                     started \<and>
                     w s = http_Error (''Failed to process data: '' @ err) 500 NewRecorder
                 | None \<Rightarrow>
                     goroutine s = Exited \<and>
                     (case marshal_Response \<lparr>Products = ps, SlowStatus = status slow,
                             SlowMessage = msg slow, ProcessStatus = st\<rparr> of
                        Inr j \<Rightarrow>
                          w s = \<lparr>Code = 200,
                                 HeaderMap = [(''Content-Type'', ''application/json'')],
                                 Body = [JSON j], wroteHeader = True,
                                 snapHeader = [(''Content-Type'', ''application/json'')]\<rparr>
                      | Inl err \<Rightarrow>
                          w s = \<lparr>Code = 200,
                                 HeaderMap = [(''Content-Type'', ''text/plain; charset=utf-8''),
                                              (''X-Content-Type-Options'', ''nosniff'')],
                                 Body = [Text (''Failed to encode response: '' @ err @ [CHR 0x0A])],
                                 wroteHeader = True,
                                 snapHeader = [(''Content-Type'', ''application/json'')]\<rparr>)))))"

text \<open>
  \<open>traced\<close> is the same for the trace: up to the \<open>go\<close> statement it is fixed by the
  two sequential stages, and from then on it only grows.
\<close>

definition traced :: "env \<Rightarrow> state \<Rightarrow> bool" where
  "traced e s =
    (let (verr, tv) = validateRequest (draw_validateRequest e);
         ((ps, ferr), tf) = GetAllProducts (DB e);
         t1 = Start ''GetProductsHandler'' # tv;
         t2 = t1 @ tf in
     case goroutine s of
       NotStarted \<Rightarrow>
        (case handler s of
           Step1 \<Rightarrow> tr s = []
         | Step2 \<Rightarrow> tr s = t1
         | Step3 products \<Rightarrow> tr s = t2
         | Returned \<Rightarrow>
            (case verr of
               Some err \<Rightarrow>
                 tr s = t1 @ [SetAttributes ''GetProductsHandler'' ''error'' (attribute_String err),
                              End ''GetProductsHandler'']
             | None \<Rightarrow>
                (case ferr of
                   Some err \<Rightarrow>
                     tr s = t2 @ [SetAttributes ''GetProductsHandler'' ''error'' (attribute_String err),
                                  End ''GetProductsHandler'']
                 | None \<Rightarrow> False))
         | _ \<Rightarrow> False)
     | _ \<Rightarrow> prefix (t2 @ [Go]) (tr s))"

text \<open>
  The calls on spans are all made by the handler's goroutine, so their order in the
  trace does not depend on the schedule: \<open>spanned\<close> gives it for every program
  counter.
\<close>

fun is_span :: "event \<Rightarrow> bool" where
  "is_span (Start name) = True"
| "is_span (SetAttributes name k v) = True"
| "is_span (End name) = True"
| "is_span ev = False"

definition spans :: "trace \<Rightarrow> trace" where
  "spans t = filter is_span t"

definition spanned :: "env \<Rightarrow> state \<Rightarrow> bool" where
  "spanned e s =
    (let (verr, tv) = validateRequest (draw_validateRequest e);
         ((ps, ferr), tf) = GetAllProducts (DB e);
         ((st, perr), tp) = processData (draw_processData e) ps;
         t1 = Start ''GetProductsHandler'' # spans tv;
         t2 = t1 @ spans tf;
         t4 = t2 @ spans tp;
         failed = (\<lambda>err. [SetAttributes ''GetProductsHandler'' ''error'' (attribute_String err),
                           End ''GetProductsHandler'']) in
     case handler s of
       Step1 \<Rightarrow> spans (tr s) = []
     | Step2 \<Rightarrow> spans (tr s) = t1
     | Step3 products \<Rightarrow> spans (tr s) = t2
     | Step4 products \<Rightarrow> spans (tr s) = t2
     | Step5 products processStatus \<Rightarrow> spans (tr s) = t4
     | Respond products processStatus slow \<Rightarrow> spans (tr s) = t4
     | Returned \<Rightarrow>
        (case verr of
           Some err \<Rightarrow> spans (tr s) = t1 @ failed err
         | None \<Rightarrow>
            (case ferr of
               Some err \<Rightarrow> spans (tr s) = t2 @ failed err
             | None \<Rightarrow>
                (case perr of
                   Some err \<Rightarrow> spans (tr s) = t4 @ failed err
                 | None \<Rightarrow>
                    (case marshal_Response \<lparr>Products = ps, SlowStatus = status (dependent_result e),
                            SlowMessage = msg (dependent_result e), ProcessStatus = st\<rparr> of
                       Inl err \<Rightarrow> spans (tr s) = t4 @ failed err
                     | Inr j \<Rightarrow> spans (tr s) = t4 @ [End ''GetProductsHandler''])))))"

text \<open>
  How far a request has come. A turn of the handler moves it on, except at 4, where
  the handler waits for the goroutine to reach its send, and at 7, where it has
  returned.
\<close>

definition progress :: "state \<Rightarrow> nat" where
  "progress s =
    (case handler s of
       Step1 \<Rightarrow> 0
     | Step2 \<Rightarrow> 1
     | Step3 products \<Rightarrow> 2
     | Step4 products \<Rightarrow> 3
     | Step5 products processStatus \<Rightarrow> (case goroutine s of Sending slow \<Rightarrow> 5 | _ \<Rightarrow> 4)
     | Respond products processStatus slow \<Rightarrow> 6
     | Returned \<Rightarrow> 7)"

section \<open>Concrete requests\<close>

text \<open>Inputs on which the theorems below are instantiated and evaluated.\<close>

definition pen :: Product where
  "pen = \<lparr>ID = 1, Name = ''pen'', Quantity = 10, Price = 0x3FC00000\<rparr>"

definition ink :: Product where
  "ink = \<lparr>ID = 2, Name = ''ink'', Quantity = 3, Price = 0x40200000\<rparr>"

definition rows_ok :: Rows where
  "rows_ok = \<lparr>Next = [Inr pen, Inr ink], Err = None\<rparr>"

definition rows_bad :: Rows where
  "rows_bad = \<lparr>Next = [Inr pen, Inl ''converting NULL to int is unsupported'', Inr ink],
               Err = None\<rparr>"

definition rows_cut :: Rows where
  "rows_cut = \<lparr>Next = [Inr pen], Err = Some ''invalid connection''\<rparr>"

definition request :: env where
  "request = \<lparr>draw_validateRequest = 1 / 2, draw_processData = 1 / 2,
              DB = Some (Inr rows_ok), now = ''2024-05-01T10:00:00Z''\<rparr>"

definition rejected :: env where
  "rejected = request\<lparr>draw_validateRequest := 1 / 10\<rparr>"

definition uninitialized :: env where
  "uninitialized = request\<lparr>DB := None\<rparr>"

definition unprocessed :: env where
  "unprocessed = request\<lparr>draw_processData := 1 / 10\<rparr>"

definition empty_table :: env where
  "empty_table = request\<lparr>DB := Some (Inr \<lparr>Next = [], Err = None\<rparr>)\<rparr>"

definition empty_unprocessed :: env where
  "empty_unprocessed = empty_table\<lparr>draw_processData := 1 / 10\<rparr>"



definition fair :: "thread list" where
  "fair = [Handler, Handler, Handler, Handler, Goroutine, Handler, Handler]"

section \<open>Unfolding the definitions on a concrete request\<close>

lemmas stage_defs = validateRequest_def GetAllProducts_def processData_def HandleSlowAPI_def
lemmas writer_defs = NewRecorder_def Header_Set_def WriteHeader_def Write_def http_Error_def
  Encode_def marshal_Response_def marshal_Product_def unsupported_float32_def
lemmas run_defs = turn_def step_def GetProductsHandler_def goroutine_step_def handoff_def init_def

section \<open>Every reachable state is coherent\<close>

lemma run_append: "run e (xs @ ys) s = run e ys (run e xs s)"
  by (induction xs arbitrary: s) auto

lemma run_invariant:
  assumes "P s" and "\<And>s t. P s \<Longrightarrow> P (turn e t s)"
  shows "P (run e sched s)"
  using assms(1)
proof (induction sched arbitrary: s)
  case Nil
  then show ?case by simp
next
  case (Cons t ts)
  from Cons.prems have "P (turn e t s)" by (rule assms(2))
  with Cons.IH show ?case by simp
qed

lemma coherent_init: "coherent e init"
  by (simp add: coherent_def init_def Let_def split: prod.splits)

lemma coherent_handler:
  assumes "coherent e s" and "GetProductsHandler e s = Some s'"
  shows "coherent e s'"
proof (cases "handler s")
  case Step1
  with assms show ?thesis
    by (auto simp: coherent_def GetProductsHandler_def Let_def
        split: prod.splits option.splits)
next
  case Step2
  with assms show ?thesis
    by (auto simp: coherent_def GetProductsHandler_def Let_def
        split: prod.splits option.splits)
next
  case (Step3 ps)
  with assms show ?thesis
    by (auto simp: coherent_def GetProductsHandler_def Let_def
        split: prod.splits option.splits)
next
  case (Step4 ps)
  with assms show ?thesis
    by (auto simp: coherent_def GetProductsHandler_def Let_def
        split: prod.splits option.splits)
next
  case (Step5 ps st)
  with assms show ?thesis
    by (auto simp: coherent_def GetProductsHandler_def handoff_def Let_def
        split: prod.splits option.splits goroutine_pc.splits)
next
  case (Respond ps st sl)
  with assms show ?thesis
    by (auto simp: coherent_def GetProductsHandler_def Let_def Encode_def Header_Set_def
        WriteHeader_def Write_def http_Error_def NewRecorder_def
        split: prod.splits option.splits sum.splits)
next
  case Returned
  with assms show ?thesis by (simp add: GetProductsHandler_def)
qed

lemma coherent_goroutine:
  assumes "coherent e s" and "goroutine_step e s = Some s'"
  shows "coherent e s'"
proof (cases "goroutine s")
  case NotStarted
  with assms show ?thesis by (simp add: goroutine_step_def)
next
  case Calling
  with assms show ?thesis
    by (auto simp: coherent_def goroutine_step_def dependent_result_def Let_def
        split: prod.splits option.splits handler_pc.splits)
next
  case (Sending sl)
  with assms show ?thesis
    by (auto simp: coherent_def goroutine_step_def handoff_def Let_def
        split: prod.splits option.splits handler_pc.splits)
next
  case Exited
  with assms show ?thesis by (simp add: goroutine_step_def)
qed

lemma coherent_turn: "coherent e s \<Longrightarrow> coherent e (turn e t s)"
  by (cases t)
    (auto simp: turn_def step_def intro: coherent_handler coherent_goroutine split: option.splits)

lemma coherent_run: "coherent e s \<Longrightarrow> coherent e (run e sched s)"
  by (rule run_invariant) (auto intro: coherent_turn)

lemma coherent_reachable: "coherent e (run e sched init)"
  by (rule coherent_run) (rule coherent_init)

section \<open>The handler returns under every schedule that lets it\<close>

lemma progress_handler_low:
  assumes "coherent e s" and "progress s < 4"
  shows "progress s < progress (turn e Handler s)"
proof (cases "handler s")
  case Step1
  then show ?thesis
    by (auto simp: progress_def turn_def step_def GetProductsHandler_def Let_def
        split: prod.splits option.splits)
next
  case Step2
  then show ?thesis
    by (auto simp: progress_def turn_def step_def GetProductsHandler_def Let_def
        split: prod.splits option.splits)
next
  case (Step3 ps)
  then show ?thesis
    by (auto simp: progress_def turn_def step_def GetProductsHandler_def Let_def
        split: prod.splits option.splits)
next
  case (Step4 ps)
  then show ?thesis
    by (auto simp: progress_def turn_def step_def GetProductsHandler_def Let_def
        split: prod.splits option.splits goroutine_pc.splits)
next
  case (Step5 ps st)
  with assms(2) show ?thesis by (simp add: progress_def split: goroutine_pc.splits)
next
  case (Respond ps st sl)
  with assms(2) show ?thesis by (simp add: progress_def)
next
  case Returned
  with assms(2) show ?thesis by (simp add: progress_def)
qed

lemma progress_handler_high:
  assumes "5 \<le> progress s" and "progress s < 7"
  shows "progress s < progress (turn e Handler s)"
proof (cases "handler s")
  case (Step5 ps st)
  with assms show ?thesis
    by (auto simp: progress_def turn_def step_def GetProductsHandler_def handoff_def
        split: goroutine_pc.splits)
next
  case (Respond ps st sl)
  then show ?thesis
    by (auto simp: progress_def turn_def step_def GetProductsHandler_def Let_def
        split: prod.splits option.splits)
qed (use assms in \<open>auto simp: progress_def\<close>)

lemma progress_mono: "progress s \<le> progress (turn e t s)"
proof (cases t)
  case Handler
  show ?thesis
  proof (cases "handler s")
    case (Step5 ps st)
    with Handler show ?thesis
      by (auto simp: progress_def turn_def step_def GetProductsHandler_def handoff_def
        split: goroutine_pc.splits)
  next
    case Returned
    with Handler show ?thesis
      by (auto simp: progress_def turn_def step_def GetProductsHandler_def)
  qed (use Handler in \<open>auto simp: progress_def turn_def step_def GetProductsHandler_def Let_def
        split: prod.splits option.splits goroutine_pc.splits\<close>)
next
  case Goroutine
  then show ?thesis
    by (cases "goroutine s"; cases "handler s")
      (auto simp: progress_def turn_def step_def goroutine_step_def handoff_def Let_def
        split: prod.splits)
qed

lemma progress_goroutine:
  assumes "coherent e s" and "progress s = 4"
  shows "progress (turn e Goroutine s) = 5"
  using assms
  by (cases "handler s"; cases "goroutine s")
    (auto simp: progress_def coherent_def turn_def step_def goroutine_step_def Let_def
      split: prod.splits)

lemma run_progress_low:
  "coherent e s \<Longrightarrow> min (progress s + count_list sched Handler) 4 \<le> progress (run e sched s)"
proof (induction sched arbitrary: s)
  case Nil
  then show ?case by simp
next
  case (Cons t ts)
  have c: "coherent e (turn e t s)" using Cons.prems by (rule coherent_turn)
  have ih: "min (progress (turn e t s) + count_list ts Handler) 4 \<le> progress (run e ts (turn e t s))"
    using c by (rule Cons.IH)
  show ?case
  proof (cases "t = Handler \<and> progress s < 4")
    case True
    then have "progress s < progress (turn e t s)"
      using progress_handler_low [OF Cons.prems] by simp
    with ih True show ?thesis by simp
  next
    case False
    have "progress s \<le> progress (turn e t s)" by (rule progress_mono)
    with ih False show ?thesis by (cases t) auto
  qed
qed

lemma run_progress_high:
  "5 \<le> progress s \<Longrightarrow> min (progress s + count_list sched Handler) 7 \<le> progress (run e sched s)"
proof (induction sched arbitrary: s)
  case Nil
  then show ?case by simp
next
  case (Cons t ts)
  have m: "progress s \<le> progress (turn e t s)" by (rule progress_mono)
  with Cons.prems have "5 \<le> progress (turn e t s)" by simp
  then have ih: "min (progress (turn e t s) + count_list ts Handler) 7 \<le> progress (run e ts (turn e t s))"
    by (rule Cons.IH)
  show ?case
  proof (cases "t = Handler \<and> progress s < 7")
    case True
    then have "progress s < progress (turn e t s)"
      using progress_handler_high [OF Cons.prems] by simp
    with ih True show ?thesis by simp
  next
    case False
    with ih m show ?thesis by (cases t) auto
  qed
qed

lemma progress_Returned: "progress s = 7 \<longleftrightarrow> handler s = Returned"
  by (auto simp: progress_def split: handler_pc.splits goroutine_pc.splits)

lemma progress_init: "progress init = 0"
  by (simp add: progress_def init_def)

lemma handler_returns:
  assumes "4 \<le> count_list a Handler" and "2 \<le> count_list b Handler"
  shows "handler (run e (a @ Goroutine # b) init) = Returned"
proof -
  let ?s = "run e a init"
  have c: "coherent e ?s" by (rule coherent_reachable)
  have "min (progress init + count_list a Handler) 4 \<le> progress ?s"
    using coherent_init by (rule run_progress_low)
  with assms(1) have four: "4 \<le> progress ?s" by (simp add: progress_init)
  have five: "5 \<le> progress (turn e Goroutine ?s)"
  proof (cases "progress ?s = 4")
    case True
    with c show ?thesis by (simp add: progress_goroutine)
  next
    case False
    with four have "5 \<le> progress ?s" by simp
    also have "\<dots> \<le> progress (turn e Goroutine ?s)" by (rule progress_mono)
    finally show ?thesis .
  qed
  then have "min (progress (turn e Goroutine ?s) + count_list b Handler) 7
      \<le> progress (run e b (turn e Goroutine ?s))"
    by (rule run_progress_high)
  with five assms(2) have "7 \<le> progress (run e b (turn e Goroutine ?s))" by simp
  moreover have "progress (run e b (turn e Goroutine ?s)) \<le> 7"
    by (simp add: progress_def split: handler_pc.splits goroutine_pc.splits)
  ultimately have "progress (run e b (turn e Goroutine ?s)) = 7" by simp
  then show ?thesis by (simp add: progress_Returned run_append)
qed

section \<open>The trace of every reachable state\<close>

lemma handler_trace_grows: "GetProductsHandler e s = Some s' \<Longrightarrow> prefix (tr s) (tr s')"
  by (cases "handler s")
    (auto simp: GetProductsHandler_def handoff_def Let_def
      split: prod.splits option.splits goroutine_pc.splits)

lemma goroutine_trace_grows: "goroutine_step e s = Some s' \<Longrightarrow> prefix (tr s) (tr s')"
  by (cases "goroutine s")
    (auto simp: goroutine_step_def handoff_def Let_def
      split: prod.splits handler_pc.splits)

lemma handler_started_stays:
  "GetProductsHandler e s = Some s' \<Longrightarrow> goroutine s \<noteq> NotStarted \<Longrightarrow> goroutine s' \<noteq> NotStarted"
  by (cases "handler s")
    (auto simp: GetProductsHandler_def handoff_def Let_def
      split: prod.splits option.splits goroutine_pc.splits)

lemma goroutine_started_stays:
  "goroutine_step e s = Some s' \<Longrightarrow> goroutine s' \<noteq> NotStarted"
  by (cases "goroutine s")
    (auto simp: goroutine_step_def handoff_def Let_def
      split: prod.splits handler_pc.splits)

lemma traced_init: "traced e init"
  by (simp add: traced_def init_def Let_def split: prod.splits)

lemma traced_started:
  assumes "traced e s" and "goroutine s \<noteq> NotStarted" and "goroutine s' \<noteq> NotStarted"
    and "prefix (tr s) (tr s')"
  shows "traced e s'"
  using assms
  by (cases "goroutine s"; cases "goroutine s'")
    (auto simp: traced_def Let_def split: prod.splits elim: prefix_order.trans)

lemma traced_handler:
  assumes "traced e s" and "GetProductsHandler e s = Some s'" and "coherent e s"
  shows "traced e s'"
proof (cases "goroutine s = NotStarted")
  case False
  show ?thesis
  proof (rule traced_started)
    show "traced e s" by (rule assms(1))
    show "goroutine s \<noteq> NotStarted" by (rule False)
    show "goroutine s' \<noteq> NotStarted" using assms(2) False by (rule handler_started_stays)
    show "prefix (tr s) (tr s')" using assms(2) by (rule handler_trace_grows)
  qed
next
  case True
  show ?thesis
  proof (cases "handler s")
    case Step1
    with assms True show ?thesis
      by (auto simp: traced_def GetProductsHandler_def Let_def split: prod.splits option.splits)
  next
    case Step2
    with assms True show ?thesis
      by (auto simp: traced_def coherent_def GetProductsHandler_def Let_def
          split: prod.splits option.splits)
  next
    case (Step3 ps)
    with assms True show ?thesis
      by (auto simp: traced_def coherent_def GetProductsHandler_def Let_def
          split: prod.splits option.splits)
  next
    case (Step4 ps)
    with assms True show ?thesis by (simp add: traced_def Let_def split: prod.splits)
  next
    case (Step5 ps st)
    with assms True show ?thesis by (simp add: traced_def Let_def split: prod.splits)
  next
    case (Respond ps st sl)
    with assms True show ?thesis by (simp add: traced_def Let_def split: prod.splits)
  next
    case Returned
    with assms show ?thesis by (simp add: GetProductsHandler_def)
  qed
qed

lemma traced_goroutine:
  assumes "traced e s" and "goroutine_step e s = Some s'"
  shows "traced e s'"
proof (cases "goroutine s = NotStarted")
  case False
  show ?thesis
  proof (rule traced_started)
    show "traced e s" by (rule assms(1))
    show "goroutine s \<noteq> NotStarted" by (rule False)
    show "goroutine s' \<noteq> NotStarted" using assms(2) by (rule goroutine_started_stays)
    show "prefix (tr s) (tr s')" using assms(2) by (rule goroutine_trace_grows)
  qed
next
  case True
  with assms show ?thesis by (simp add: goroutine_step_def)
qed

lemma traced_turn:
  "coherent e s \<and> traced e s \<Longrightarrow> coherent e (turn e t s) \<and> traced e (turn e t s)"
  by (cases t)
    (auto simp: turn_def step_def
      intro: coherent_handler coherent_goroutine traced_handler traced_goroutine
      split: option.splits)

lemma traced_reachable: "traced e (run e sched init)"
proof -
  have "coherent e (run e sched init) \<and> traced e (run e sched init)"
  proof (rule run_invariant)
    show "coherent e init \<and> traced e init" by (simp add: coherent_init traced_init)
  next
    fix s t
    assume "coherent e s \<and> traced e s"
    then show "coherent e (turn e t s) \<and> traced e (turn e t s)" by (rule traced_turn)
  qed
  then show ?thesis ..
qed

section \<open>Properties of the store fetch\<close>

lemma scan_rows_Inl:
  "\<exists>e \<in> set rs. isl e \<Longrightarrow> isl (scan_rows rs acc)"
  by (induction rs acc rule: scan_rows.induct) auto

lemma scan_rows_Inr:
  "scan_rows rs acc = Inr ps \<Longrightarrow> (\<forall>e \<in> set rs. \<not> isl e) \<and> elems ps = elems acc @ map projr rs"
proof (induction rs acc rule: scan_rows.induct)
  case (3 p rs products)
  then show ?case by (cases products) auto
qed auto

text \<open>
  Claim C7. The store fetch is all or nothing. Whenever \<open>GetAllProducts\<close> returns an
  error, the slice it returns with it is nil: no prefix of the rows scanned so far
  comes back. When the query gave a cursor and the \<open>Scan\<close> of any row fails, or
  \<open>rows.Err()\<close> reports a failure of the iteration, it does return an error. When it
  returns no error, the products are the scanned rows in their order, and its span
  is annotated with \<open>product_count\<close>, their number, before it is ended.
\<close>

theorem GetAllProducts_all_or_nothing:
  assumes "GetAllProducts db = ((products, err), t)"
  shows "(err \<noteq> None \<longrightarrow> products = nil) \<and>
         (\<forall>rows. db = Some (Inr rows) \<and> ((\<exists>x \<in> set (Next rows). isl x) \<or> Err rows \<noteq> None)
            \<longrightarrow> err \<noteq> None) \<and>
         (err = None \<longrightarrow>
            (\<exists>rows. db = Some (Inr rows) \<and> elems products = map projr (Next rows)) \<and>
            t = [Start ''GetAllProducts'',
                 QueryContext ''SELECT id, name, quantity, price FROM products'',
                 SetAttributes ''GetAllProducts'' ''product_count''
                   (attribute_Int (int (len products))),
                 RowsClose, End ''GetAllProducts''])"
proof (intro conjI allI impI)
  assume "err \<noteq> None"
  with assms show "products = nil"
    by (auto simp: GetAllProducts_def Let_def split: option.splits sum.splits)
next
  fix rows
  assume h: "db = Some (Inr rows) \<and> ((\<exists>x \<in> set (Next rows). isl x) \<or> Err rows \<noteq> None)"
  show "err \<noteq> None"
  proof (cases "\<exists>x \<in> set (Next rows). isl x")
    case True
    then have "isl (scan_rows (Next rows) nil)" by (rule scan_rows_Inl)
    with assms h show ?thesis
      by (auto simp: GetAllProducts_def Let_def split: sum.splits)
  next
    case False
    with h have "Err rows \<noteq> None" by simp
    with assms h show ?thesis
      by (auto simp: GetAllProducts_def Let_def split: sum.splits)
  qed
next
  assume ok: "err = None"
  with assms obtain rows where r: "db = Some (Inr rows)" "scan_rows (Next rows) nil = Inr products"
      "Err rows = None"
    by (auto simp: GetAllProducts_def Let_def split: option.splits sum.splits)
  from scan_rows_Inr [OF r(2)] have "elems products = map projr (Next rows)" by simp
  with r show "\<exists>rows. db = Some (Inr rows) \<and> elems products = map projr (Next rows)" by blast
  from assms r ok show "t = [Start ''GetAllProducts'',
                 QueryContext ''SELECT id, name, quantity, price FROM products'',
                 SetAttributes ''GetAllProducts'' ''product_count''
                   (attribute_Int (int (len products))),
                 RowsClose, End ''GetAllProducts'']"
    by (auto simp: GetAllProducts_def Let_def)
qed

theorem GetAllProducts_all_or_nothing_witness:
  "GetAllProducts (Some (Inr rows_bad)) =
     ((nil, Some ''error scanning product row: converting NULL to int is unsupported''),
      [Start ''GetAllProducts'',
       QueryContext ''SELECT id, name, quantity, price FROM products'',
       SetAttributes ''GetAllProducts'' ''error''
         (attribute_String ''converting NULL to int is unsupported''),
       RowsClose, End ''GetAllProducts'']) \<and>
   (\<exists>x \<in> set (Next rows_bad). isl x) \<and>
   GetAllProducts (Some (Inr rows_cut)) =
     ((nil, Some ''error iterating over product rows: invalid connection''),
      [Start ''GetAllProducts'',
       QueryContext ''SELECT id, name, quantity, price FROM products'',
       SetAttributes ''GetAllProducts'' ''error'' (attribute_String ''invalid connection''),
       RowsClose, End ''GetAllProducts'']) \<and>
   Err rows_cut \<noteq> None \<and>
   GetAllProducts (Some (Inr rows_ok)) =
     ((Slice [pen, ink], None),
      [Start ''GetAllProducts'',
       QueryContext ''SELECT id, name, quantity, price FROM products'',
       SetAttributes ''GetAllProducts'' ''product_count'' (attribute_Int 2),
       RowsClose, End ''GetAllProducts'']) \<and>
   elems (Slice [pen, ink]) = map projr (Next rows_ok)"
proof -
  have bad: "GetAllProducts (Some (Inr rows_bad)) =
     ((nil, Some ''error scanning product row: converting NULL to int is unsupported''),
      [Start ''GetAllProducts'',
       QueryContext ''SELECT id, name, quantity, price FROM products'',
       SetAttributes ''GetAllProducts'' ''error''
         (attribute_String ''converting NULL to int is unsupported''),
       RowsClose, End ''GetAllProducts''])"
    by (simp add: GetAllProducts_def rows_bad_def)
  have cut: "GetAllProducts (Some (Inr rows_cut)) =
     ((nil, Some ''error iterating over product rows: invalid connection''),
      [Start ''GetAllProducts'',
       QueryContext ''SELECT id, name, quantity, price FROM products'',
       SetAttributes ''GetAllProducts'' ''error'' (attribute_String ''invalid connection''),
       RowsClose, End ''GetAllProducts''])"
    by (simp add: GetAllProducts_def rows_cut_def)
  have ok: "GetAllProducts (Some (Inr rows_ok)) =
     ((Slice [pen, ink], None),
      [Start ''GetAllProducts'',
       QueryContext ''SELECT id, name, quantity, price FROM products'',
       SetAttributes ''GetAllProducts'' ''product_count'' (attribute_Int 2),
       RowsClose, End ''GetAllProducts''])"
    by (simp add: GetAllProducts_def rows_ok_def)
  from GetAllProducts_all_or_nothing [OF bad] GetAllProducts_all_or_nothing [OF cut]
    GetAllProducts_all_or_nothing [OF ok] bad cut ok
  show ?thesis by (simp add: rows_bad_def rows_cut_def rows_ok_def)
qed

section \<open>The responses of the handler\<close>

lemma http_Error_NewRecorder:
  "http_Error err code NewRecorder =
    \<lparr>Code = code,
     HeaderMap = [(''Content-Type'', ''text/plain; charset=utf-8''),
                  (''X-Content-Type-Options'', ''nosniff'')],
     Body = [Text (err @ [CHR 0x0A])], wroteHeader = True,
     snapHeader = [(''Content-Type'', ''text/plain; charset=utf-8''),
                   (''X-Content-Type-Options'', ''nosniff'')]\<rparr>"
  by (simp add: http_Error_def Header_Set_def WriteHeader_def Write_def NewRecorder_def)

lemma progress_reachable:
  "min (count_list sched Handler) 4 \<le> progress (run e sched init)"
  using run_progress_low [OF coherent_init, where e = e and sched = sched]
  by (simp add: progress_init)

text \<open>
  Claim C2. When \<open>validateRequest\<close> returns an error, the handler answers 400 with
  the message of that error (and a newline) as its body, whatever the schedule; it
  has returned as soon as it has had one turn. \<open>GetAllProducts\<close> is never entered:
  its span is never started and no query is sent.
\<close>

theorem validation_failure_rejects:
  assumes "fst (validateRequest (draw_validateRequest e)) = Some err"
    and "s = run e sched init"
  shows "err = ''request validation failed'' \<and>
         Start ''GetAllProducts'' \<notin> set (tr s) \<and>
         (\<forall>query. QueryContext query \<notin> set (tr s)) \<and>
         (handler s = Returned \<longrightarrow> Code (w s) = 400 \<and> Body (w s) = [Text (err @ [CHR 0x0A])]) \<and>
         (1 \<le> count_list sched Handler \<longrightarrow> handler s = Returned)"
proof -
  have c: "coherent e s" unfolding assms(2) by (rule coherent_reachable)
  have t: "traced e s" unfolding assms(2) by (rule traced_reachable)
  have p: "min (count_list sched Handler) 4 \<le> progress s"
    unfolding assms(2) by (rule progress_reachable)
  from assms(1) have err: "err = ''request validation failed''"
    by (auto simp: validateRequest_def Let_def split: if_splits)
  from c assms(1) have pc: "handler s = Step1 \<or> handler s = Returned"
    by (cases "handler s") (auto simp: coherent_def Let_def split: prod.splits)
  from c assms(1) have g: "goroutine s = NotStarted"
    by (cases "handler s") (auto simp: coherent_def Let_def split: prod.splits)
  from t g pc assms(1) have tr: "Start ''GetAllProducts'' \<notin> set (tr s) \<and>
      (\<forall>query. QueryContext query \<notin> set (tr s))"
    by (auto simp: traced_def validateRequest_def Let_def split: prod.splits if_splits)
  from c assms(1) have w: "handler s = Returned \<longrightarrow>
      Code (w s) = 400 \<and> Body (w s) = [Text (err @ [CHR 0x0A])]"
    by (auto simp: coherent_def Let_def http_Error_NewRecorder split: prod.splits)
  from p pc have l: "1 \<le> count_list sched Handler \<longrightarrow> handler s = Returned"
    by (auto simp: progress_def)
  from err tr w l show ?thesis by blast
qed

theorem validation_failure_rejects_witness:
  "fst (validateRequest (draw_validateRequest rejected)) = Some ''request validation failed'' \<and>
   handler (run rejected [Handler] init) = Returned \<and>
   Code (w (run rejected [Handler] init)) = 400 \<and>
   Body (w (run rejected [Handler] init)) = [Text (''request validation failed'' @ [CHR 0x0A])] \<and>
   Start ''GetAllProducts'' \<notin> set (tr (run rejected [Handler] init))"
proof -
  have v: "fst (validateRequest (draw_validateRequest rejected)) = Some ''request validation failed''"
    by (simp add: rejected_def request_def validateRequest_def)
  from validation_failure_rejects [OF v, where s = "run rejected [Handler] init" and sched = "[Handler]"] v
  show ?thesis by simp
qed

lemma coherent_Returned_failed:
  assumes "coherent e s"
    and "fst (validateRequest (draw_validateRequest e)) = None"
    and "fst (GetAllProducts (DB e)) = (products, ferr)"
    and "fst (processData (draw_processData e) products) = (processStatus, perr)"
    and "ferr \<noteq> None \<or> perr \<noteq> None"
  shows "(handler s = Returned \<longrightarrow>
            w s = http_Error (case ferr of
                                Some err \<Rightarrow> ''Failed to fetch products: '' @ err
                              | None \<Rightarrow> (case perr of
                                           Some err \<Rightarrow> ''Failed to process data: '' @ err
                                         | None \<Rightarrow> [])) 500 NewRecorder) \<and>
         (handler s \<noteq> Returned \<longrightarrow> w s = NewRecorder \<and> progress s < 4) \<and>
         (ferr \<noteq> None \<longrightarrow> handler s \<noteq> Returned \<longrightarrow> progress s < 2) \<and>
         goroutine s \<noteq> Exited"
  using assms
  by (cases "handler s")
    (auto simp: coherent_def progress_def Let_def split: prod.splits option.splits goroutine_pc.splits)

text \<open>
  Claim C3. In a request that got past validation, when \<open>GetAllProducts\<close> returns an
  error, or it returns none and \<open>processData\<close> returns one, the handler answers 500
  and its body is the one line of \<open>http.Error\<close>: at no moment of any schedule
  does the body hold a JSON document. The handler has returned once it has had four
  turns.
\<close>

theorem fetch_or_processing_failure:
  assumes "fst (validateRequest (draw_validateRequest e)) = None"
    and "fst (GetAllProducts (DB e)) = (products, ferr)"
    and "fst (processData (draw_processData e) products) = (processStatus, perr)"
    and "ferr \<noteq> None \<or> perr \<noteq> None"
    and "s = run e sched init"
  shows "(\<forall>j. JSON j \<notin> set (Body (w s))) \<and>
         (handler s = Returned \<longrightarrow>
            Code (w s) = 500 \<and>
            Body (w s) =
              [Text ((case ferr of
                        Some err \<Rightarrow> ''Failed to fetch products: '' @ err
                      | None \<Rightarrow> (case perr of
                                   Some err \<Rightarrow> ''Failed to process data: '' @ err
                                 | None \<Rightarrow> [])) @ [CHR 0x0A])]) \<and>
         (4 \<le> count_list sched Handler \<longrightarrow> handler s = Returned)"
proof -
  have c: "coherent e s" unfolding assms(5) by (rule coherent_reachable)
  have p: "min (count_list sched Handler) 4 \<le> progress s"
    unfolding assms(5) by (rule progress_reachable)
  note f = coherent_Returned_failed [OF c assms(1-4)]
  have body: "\<forall>j. JSON j \<notin> set (Body (w s))"
  proof (cases "handler s = Returned")
    case True
    with f show ?thesis by (auto simp: http_Error_NewRecorder)
  next
    case False
    with f show ?thesis by (simp add: NewRecorder_def)
  qed
  from f have resp: "handler s = Returned \<longrightarrow>
            Code (w s) = 500 \<and>
            Body (w s) =
              [Text ((case ferr of
                        Some err \<Rightarrow> ''Failed to fetch products: '' @ err
                      | None \<Rightarrow> (case perr of
                                   Some err \<Rightarrow> ''Failed to process data: '' @ err
                                 | None \<Rightarrow> [])) @ [CHR 0x0A])]"
    by (simp add: http_Error_NewRecorder)
  from f p have live: "4 \<le> count_list sched Handler \<longrightarrow> handler s = Returned"
    by (cases "handler s = Returned") auto
  from body resp live show ?thesis by blast
qed

theorem fetch_or_processing_failure_witness:
  "fst (validateRequest (draw_validateRequest uninitialized)) = None \<and>
   fst (GetAllProducts (DB uninitialized)) =
     (nil, Some ''database connection not initialized; call InitDB first'') \<and>
   handler (run uninitialized [Handler, Handler, Handler, Handler] init) = Returned \<and>
   Code (w (run uninitialized [Handler, Handler, Handler, Handler] init)) = 500 \<and>
   Body (w (run uninitialized [Handler, Handler, Handler, Handler] init)) =
     [Text (''Failed to fetch products: database connection not initialized; call InitDB first''
            @ [CHR 0x0A])] \<and>
   fst (validateRequest (draw_validateRequest unprocessed)) = None \<and>
   fst (GetAllProducts (DB unprocessed)) = (Slice [pen, ink], None) \<and>
   fst (processData (draw_processData unprocessed) (Slice [pen, ink])) =
     (''failed'', Some ''data processing failed'') \<and>
   handler (run unprocessed [Handler, Handler, Handler, Handler] init) = Returned \<and>
   Code (w (run unprocessed [Handler, Handler, Handler, Handler] init)) = 500 \<and>
   Body (w (run unprocessed [Handler, Handler, Handler, Handler] init)) =
     [Text (''Failed to process data: data processing failed'' @ [CHR 0x0A])]"
proof -
  have v1: "fst (validateRequest (draw_validateRequest uninitialized)) = None"
    by (simp add: uninitialized_def request_def validateRequest_def)
  have f1: "fst (GetAllProducts (DB uninitialized)) =
      (nil, Some ''database connection not initialized; call InitDB first'')"
    by (simp add: uninitialized_def request_def GetAllProducts_def)
  have p1: "fst (processData (draw_processData uninitialized) nil) = (''success'', None)"
    by (simp add: uninitialized_def request_def processData_def)
  have v2: "fst (validateRequest (draw_validateRequest unprocessed)) = None"
    by (simp add: unprocessed_def request_def validateRequest_def)
  have f2: "fst (GetAllProducts (DB unprocessed)) = (Slice [pen, ink], None)"
    by (simp add: unprocessed_def request_def rows_ok_def GetAllProducts_def)
  have p2: "fst (processData (draw_processData unprocessed) (Slice [pen, ink])) =
      (''failed'', Some ''data processing failed'')"
    by (simp add: unprocessed_def request_def processData_def)
  from fetch_or_processing_failure [OF v1 f1 p1 _ refl,
      where sched = "[Handler, Handler, Handler, Handler]"]
    fetch_or_processing_failure [OF v2 f2 p2 _ refl,
      where sched = "[Handler, Handler, Handler, Handler]"]
    v1 f1 v2 f2 p2
  show ?thesis by simp
qed

text \<open>
  Claim C6. With \<open>DB\<close> nil, \<open>GetAllProducts\<close> returns normally, with the nil slice and
  the error \<open>database connection not initialized; call InitDB first\<close>: the handle
  is not dereferenced. The handler that called it (validation has passed) answers
  500, and the one line of its body contains \<open>database connection not initialized\<close>;
  it has returned once it has had two turns.
\<close>

theorem uninitialized_store_is_an_error:
  assumes "DB e = None"
    and "fst (validateRequest (draw_validateRequest e)) = None"
    and "s = run e sched init"
  shows "fst (GetAllProducts (DB e)) =
           (nil, Some ''database connection not initialized; call InitDB first'') \<and>
         (handler s = Returned \<longrightarrow>
            Code (w s) = 500 \<and>
            (\<exists>text. Body (w s) = [Text text] \<and>
               sublist ''database connection not initialized'' text)) \<and>
         (2 \<le> count_list sched Handler \<longrightarrow> handler s = Returned)"
proof -
  have c: "coherent e s" unfolding assms(3) by (rule coherent_reachable)
  have p: "min (count_list sched Handler) 4 \<le> progress s"
    unfolding assms(3) by (rule progress_reachable)
  have f: "fst (GetAllProducts (DB e)) =
      (nil, Some ''database connection not initialized; call InitDB first'')"
    using assms(1) by (simp add: GetAllProducts_def)
  obtain processStatus perr
    where pr: "fst (processData (draw_processData e) nil) = (processStatus, perr)"
    by (cases "fst (processData (draw_processData e) nil)") auto
  note r = coherent_Returned_failed [OF c assms(2) f pr]
  have "sublist ''database connection not initialized''
      (''Failed to fetch products: '' @ ''database connection not initialized'' @
        ''; call InitDB first'' @ [CHR 0x0A])"
    by (rule sublist_appendI)
  then have sub: "sublist ''database connection not initialized''
      (''Failed to fetch products: database connection not initialized; call InitDB first''
        @ [CHR 0x0A])"
    by simp
  from r sub have resp: "handler s = Returned \<longrightarrow>
            Code (w s) = 500 \<and>
            (\<exists>text. Body (w s) = [Text text] \<and>
               sublist ''database connection not initialized'' text)"
    by (simp add: http_Error_NewRecorder)
  from r p have live: "2 \<le> count_list sched Handler \<longrightarrow> handler s = Returned"
    by (cases "handler s = Returned") auto
  from f resp live show ?thesis by blast
qed

theorem uninitialized_store_is_an_error_witness:
  "DB uninitialized = None \<and>
   fst (validateRequest (draw_validateRequest uninitialized)) = None \<and>
   fst (GetAllProducts (DB uninitialized)) =
     (nil, Some ''database connection not initialized; call InitDB first'') \<and>
   handler (run uninitialized [Handler, Handler] init) = Returned \<and>
   Code (w (run uninitialized [Handler, Handler] init)) = 500 \<and>
   (\<exists>text. Body (w (run uninitialized [Handler, Handler] init)) = [Text text] \<and>
      sublist ''database connection not initialized'' text)"
proof -
  have d: "DB uninitialized = None"
    by (simp add: uninitialized_def)
  have v: "fst (validateRequest (draw_validateRequest uninitialized)) = None"
    by (simp add: uninitialized_def request_def validateRequest_def)
  from uninitialized_store_is_an_error [OF d v refl, where sched = "[Handler, Handler]"] d v
  show ?thesis by simp
qed

lemma dependent_result_eq:
  "dependent_result e = \<lparr>status = 200, msg = ''Slow API response at '' @ now e @ [CHR 0x0A]\<rparr>"
  by (simp add: dependent_result_def HandleSlowAPI_def WriteHeader_def Write_def NewRecorder_def)

lemma processData_ok:
  "snd (fst (processData d ps)) = None \<Longrightarrow> fst (processData d ps) = (''success'', None)"
  by (auto simp: processData_def Let_def split: if_splits)

lemma marshal_Products_ok:
  "\<forall>p \<in> set ps. unsupported_float32 (Price p) = None \<Longrightarrow>
   \<exists>js. marshal_Products ps = Inr js \<and> length js = length ps"
  by (induction ps) (auto simp: marshal_Product_def)

lemma marshal_Response_ok:
  assumes "\<forall>p \<in> set (elems ps). unsupported_float32 (Price p) = None"
  shows "\<exists>js. length js = len ps \<and>
    marshal_Response \<lparr>Products = ps, SlowStatus = c, SlowMessage = m, ProcessStatus = st\<rparr> =
      Inr (JObject [(''products'', case ps of nil \<Rightarrow> JNull | Slice xs \<Rightarrow> JArray js),
                    (''slow_status'', JNumber c),
                    (''slow_message'', JString m),
                    (''process_status'', JString st)])"
proof (cases ps)
  case nil
  then show ?thesis by (simp add: marshal_Response_def)
next
  case (Slice xs)
  with assms obtain js where "marshal_Products xs = Inr js" "length js = length xs"
    using marshal_Products_ok [of xs] by auto
  with Slice show ?thesis by (auto simp: marshal_Response_def)
qed

lemma coherent_Returned_200:
  assumes "coherent e s" and "handler s = Returned" and "Code (w s) = 200"
    and "fst (GetAllProducts (DB e)) = (products, ferr)"
  shows "fst (validateRequest (draw_validateRequest e)) = None \<and> ferr = None \<and>
         fst (processData (draw_processData e) products) = (''success'', None) \<and>
         goroutine s = Exited \<and>
         (case marshal_Response \<lparr>Products = products, SlowStatus = status (dependent_result e),
                 SlowMessage = msg (dependent_result e), ProcessStatus = ''success''\<rparr> of
            Inr j \<Rightarrow> Body (w s) = [JSON j]
          | Inl err \<Rightarrow> Body (w s) = [Text (''Failed to encode response: '' @ err @ [CHR 0x0A])])"
proof -
  obtain st perr where p: "fst (processData (draw_processData e) products) = (st, perr)"
    by (cases "fst (processData (draw_processData e) products)") auto
  from assms p have "fst (validateRequest (draw_validateRequest e)) = None \<and> ferr = None \<and>
      perr = None \<and> goroutine s = Exited \<and>
      (case marshal_Response \<lparr>Products = products, SlowStatus = status (dependent_result e),
                 SlowMessage = msg (dependent_result e), ProcessStatus = st\<rparr> of
            Inr j \<Rightarrow> Body (w s) = [JSON j]
          | Inl err \<Rightarrow> Body (w s) = [Text (''Failed to encode response: '' @ err @ [CHR 0x0A])])"
    by (auto simp: coherent_def Let_def http_Error_NewRecorder split: option.splits sum.splits)
  moreover from this p have "st = ''success''"
    using processData_ok [of "draw_processData e" products] by simp
  ultimately show ?thesis using p by simp
qed

lemma coherent_all_ok:
  assumes "coherent e s"
    and "fst (validateRequest (draw_validateRequest e)) = None"
    and "fst (GetAllProducts (DB e)) = (products, None)"
    and "snd (fst (processData (draw_processData e) products)) = None"
    and "handler s = Returned"
  shows "Code (w s) = 200"
proof -
  from assms(4) have "fst (processData (draw_processData e) products) = (''success'', None)"
    by (rule processData_ok)
  with assms show ?thesis
    by (auto simp: coherent_def Let_def split: sum.splits)
qed

text \<open>
  Where the response can be encoded, that is, where every fetched record has a
  finite price: whenever the handler has returned with status 200, the fetch and
  the processing stage returned no error, and the body is one JSON document whose
  \<open>products\<close> has as many entries as the fetch returned records (\<open>null\<close> for the nil
  slice of no records), whose \<open>slow_status\<close> is 200 and whose \<open>process_status\<close> is
  \<open>success\<close>. When validation, fetch and processing succeed, every schedule that
  gives the handler four turns, then the goroutine one, then the handler two has
  the handler return with 200. The status string of \<open>processData\<close> is \<open>success\<close>
  exactly when it returns no error and \<open>failed\<close> exactly when it returns one.
\<close>

lemma aggregated_response:
  assumes "fst (GetAllProducts (DB e)) = (products, ferr)"
    and "\<forall>p \<in> set (elems products). unsupported_float32 (Price p) = None"
  shows "(handler (run e sched init) = Returned \<and> Code (w (run e sched init)) = 200 \<longrightarrow>
            ferr = None \<and>
            fst (processData (draw_processData e) products) = (''success'', None) \<and>
            (\<exists>js. length js = len products \<and>
               Body (w (run e sched init)) =
                 [JSON (JObject
                    [(''products'', case products of nil \<Rightarrow> JNull | Slice ps \<Rightarrow> JArray js),
                     (''slow_status'', JNumber 200),
                     (''slow_message'', JString (''Slow API response at '' @ now e @ [CHR 0x0A])),
                     (''process_status'', JString ''success'')])])) \<and>
         (fst (validateRequest (draw_validateRequest e)) = None \<and> ferr = None \<and>
            snd (fst (processData (draw_processData e) products)) = None \<and>
            4 \<le> count_list a Handler \<and> 2 \<le> count_list b Handler \<longrightarrow>
            handler (run e (a @ Goroutine # b) init) = Returned \<and>
            Code (w (run e (a @ Goroutine # b) init)) = 200) \<and>
         (fst (fst (processData (draw_processData e) products)) = ''success'' \<longleftrightarrow>
            snd (fst (processData (draw_processData e) products)) = None) \<and>
         (fst (fst (processData (draw_processData e) products)) = ''failed'' \<longleftrightarrow>
            snd (fst (processData (draw_processData e) products)) \<noteq> None)"
proof (intro conjI impI)
  let ?s = "run e sched init"
  assume h: "handler ?s = Returned \<and> Code (w ?s) = 200"
  have c: "coherent e ?s" by (rule coherent_reachable)
  from h have r: "handler ?s = Returned" and k: "Code (w ?s) = 200" by simp_all
  note f = coherent_Returned_200 [OF c r k assms(1)]
  from f show "ferr = None" by simp
  from f show "fst (processData (draw_processData e) products) = (''success'', None)" by simp
  from marshal_Response_ok [OF assms(2)] obtain js where js: "length js = len products"
    "marshal_Response \<lparr>Products = products, SlowStatus = status (dependent_result e),
        SlowMessage = msg (dependent_result e), ProcessStatus = ''success''\<rparr> =
      Inr (JObject [(''products'', case products of nil \<Rightarrow> JNull | Slice xs \<Rightarrow> JArray js),
                    (''slow_status'', JNumber (status (dependent_result e))),
                    (''slow_message'', JString (msg (dependent_result e))),
                    (''process_status'', JString ''success'')])"
    by blast
  with f have "Body (w ?s) =
      [JSON (JObject
         [(''products'', case products of nil \<Rightarrow> JNull | Slice ps \<Rightarrow> JArray js),
          (''slow_status'', JNumber 200),
          (''slow_message'', JString (''Slow API response at '' @ now e @ [CHR 0x0A])),
          (''process_status'', JString ''success'')])]"
    by (simp add: dependent_result_eq)
  with js(1) show "\<exists>js. length js = len products \<and>
               Body (w ?s) =
                 [JSON (JObject
                    [(''products'', case products of nil \<Rightarrow> JNull | Slice ps \<Rightarrow> JArray js),
                     (''slow_status'', JNumber 200),
                     (''slow_message'', JString (''Slow API response at '' @ now e @ [CHR 0x0A])),
                     (''process_status'', JString ''success'')])]"
    by blast
next
  let ?s = "run e (a @ Goroutine # b) init"
  assume h: "fst (validateRequest (draw_validateRequest e)) = None \<and> ferr = None \<and>
            snd (fst (processData (draw_processData e) products)) = None \<and>
            4 \<le> count_list a Handler \<and> 2 \<le> count_list b Handler"
  then show r: "handler ?s = Returned" by (simp add: handler_returns)
  have c: "coherent e ?s" by (rule coherent_reachable)
  from h assms(1) have "fst (GetAllProducts (DB e)) = (products, None)" by simp
  with c h r show "Code (w ?s) = 200" by (simp add: coherent_all_ok)
next
  show "fst (fst (processData (draw_processData e) products)) = ''success'' \<longleftrightarrow>
            snd (fst (processData (draw_processData e) products)) = None"
    by (simp add: processData_def Let_def)
next
  show "fst (fst (processData (draw_processData e) products)) = ''failed'' \<longleftrightarrow>
            snd (fst (processData (draw_processData e) products)) \<noteq> None"
    by (simp add: processData_def Let_def)
qed

lemma aggregated_response_request:
  "fst (GetAllProducts (DB request)) = (Slice [pen, ink], None) \<and>
   unsupported_float32 (Price pen) = None \<and> unsupported_float32 (Price ink) = None \<and>
   fst (validateRequest (draw_validateRequest request)) = None \<and>
   fst (processData (draw_processData request) (Slice [pen, ink])) = (''success'', None) \<and>
   handler (run request fair init) = Returned \<and>
   Code (w (run request fair init)) = 200 \<and>
   (\<exists>js. length js = 2 \<and>
      Body (w (run request fair init)) =
        [JSON (JObject
           [(''products'', JArray js),
            (''slow_status'', JNumber 200),
            (''slow_message'', JString (''Slow API response at 2024-05-01T10:00:00Z'' @ [CHR 0x0A])),
            (''process_status'', JString ''success'')])])"
proof -
  have f: "fst (GetAllProducts (DB request)) = (Slice [pen, ink], None)"
    by (simp add: request_def rows_ok_def GetAllProducts_def)
  have p: "unsupported_float32 (Price pen) = None \<and> unsupported_float32 (Price ink) = None"
    by (simp add: pen_def ink_def unsupported_float32_def)
  then have enc: "\<forall>p \<in> set (elems (Slice [pen, ink])). unsupported_float32 (Price p) = None"
    by simp
  have v: "fst (validateRequest (draw_validateRequest request)) = None"
    by (simp add: request_def validateRequest_def)
  have d: "snd (fst (processData (draw_processData request) (Slice [pen, ink]))) = None"
    by (simp add: request_def processData_def)
  have n: "now request = ''2024-05-01T10:00:00Z''"
    by (simp add: request_def)
  have s: "fair = [Handler, Handler, Handler, Handler] @ Goroutine # [Handler, Handler]"
    by (simp add: fair_def)
  note t = aggregated_response [OF f enc, where sched = fair
      and a = "[Handler, Handler, Handler, Handler]" and b = "[Handler, Handler]"]
  have pre: "fst (validateRequest (draw_validateRequest request)) = None \<and>
      (None :: error option) = None \<and>
      snd (fst (processData (draw_processData request) (Slice [pen, ink]))) = None \<and>
      4 \<le> count_list [Handler, Handler, Handler, Handler] Handler \<and>
      2 \<le> count_list [Handler, Handler] Handler"
    using v d by simp
  from t [THEN conjunct2, THEN conjunct1, THEN mp, OF pre]
  have live: "handler (run request fair init) = Returned \<and> Code (w (run request fair init)) = 200"
    by (simp only: s)
  from t [THEN conjunct1, THEN mp, OF live]
  have "fst (processData (draw_processData request) (Slice [pen, ink])) = (''success'', None) \<and>
   (\<exists>js. length js = 2 \<and>
      Body (w (run request fair init)) =
        [JSON (JObject
           [(''products'', JArray js),
            (''slow_status'', JNumber 200),
            (''slow_message'', JString (''Slow API response at 2024-05-01T10:00:00Z'' @ [CHR 0x0A])),
            (''process_status'', JString ''success'')])])"
    by (simp add: n numeral_2_eq_2)
  with f p v live show ?thesis by simp
qed


lemma marshal_Response_fields:
  "marshal_Response resp = Inr j \<Longrightarrow>
   \<exists>products. j = JObject [(''products'', products),
                          (''slow_status'', JNumber (SlowStatus resp)),
                          (''slow_message'', JString (SlowMessage resp)),
                          (''process_status'', JString (ProcessStatus resp))]"
  by (auto simp: marshal_Response_def split: sum.splits slice.splits)

lemma Body_NewRecorder: "Body NewRecorder = []"
  by (simp add: NewRecorder_def)

lemma coherent_JSON:
  assumes "coherent e s" and "JSON j \<in> set (Body (w s))"
  shows "\<exists>products processStatus.
    marshal_Response \<lparr>Products = products, SlowStatus = status (dependent_result e),
       SlowMessage = msg (dependent_result e), ProcessStatus = processStatus\<rparr> = Inr j"
  using assms
  by (cases "handler s")
    (auto simp: coherent_def Let_def http_Error_NewRecorder Body_NewRecorder
      split: prod.splits option.splits sum.splits)

text \<open>
  Claim C4. \<open>recorder\<close> is the recorder of the request after \<open>HandleSlowAPI\<close> has
  written to it. In every state where the handler assembles the response, its local
  \<open>slow\<close> holds the code and the body of \<open>recorder\<close>, as they came through
  \<open>slowChan\<close>; and every JSON document the handler ever writes carries exactly that
  code as \<open>slow_status\<close> and that body as \<open>slow_message\<close>.
\<close>

theorem dependent_result_round_trip:
  assumes "s = run e sched init"
    and "HandleSlowAPI (now e) NewRecorder = (recorder, t)"
  shows "(\<forall>products processStatus slow.
            handler s = Respond products processStatus slow \<longrightarrow>
            status slow = Code recorder \<and> msg slow = concat (Body recorder)) \<and>
         (\<forall>j. JSON j \<in> set (Body (w s)) \<longrightarrow>
            (\<exists>products processStatus.
               j = JObject [(''products'', products),
                            (''slow_status'', JNumber (Code recorder)),
                            (''slow_message'', JString (concat (Body recorder))),
                            (''process_status'', processStatus)]))"
proof (intro conjI allI impI)
  have c: "coherent e s" unfolding assms(1) by (rule coherent_reachable)
  from assms(2) have d: "dependent_result e =
      \<lparr>status = Code recorder, msg = concat (Body recorder)\<rparr>"
    by (simp add: dependent_result_def)
  {
    fix products processStatus slow
    assume "handler s = Respond products processStatus slow"
    with c have "slow = dependent_result e"
      by (simp add: coherent_def Let_def split: prod.splits)
    with d show "status slow = Code recorder" and "msg slow = concat (Body recorder)"
      by simp_all
  }
  fix j
  assume "JSON j \<in> set (Body (w s))"
  with c obtain products processStatus where
    "marshal_Response \<lparr>Products = products, SlowStatus = status (dependent_result e),
       SlowMessage = msg (dependent_result e), ProcessStatus = processStatus\<rparr> = Inr j"
    using coherent_JSON by blast
  from marshal_Response_fields [OF this] d
  show "\<exists>products processStatus.
               j = JObject [(''products'', products),
                            (''slow_status'', JNumber (Code recorder)),
                            (''slow_message'', JString (concat (Body recorder))),
                            (''process_status'', processStatus)]"
    by auto
qed

theorem dependent_result_round_trip_witness:
  "HandleSlowAPI (now request) NewRecorder =
     (\<lparr>Code = 200, HeaderMap = [],
       Body = [''Slow API response at 2024-05-01T10:00:00Z'' @ [CHR 0x0A]],
       wroteHeader = True, snapHeader = []\<rparr>,
      [Sleep 2000]) \<and>
   handler (run request [Handler, Handler, Handler, Handler, Goroutine, Handler] init) =
     Respond (Slice [pen, ink]) ''success''
       \<lparr>status = 200, msg = ''Slow API response at 2024-05-01T10:00:00Z'' @ [CHR 0x0A]\<rparr> \<and>
   (\<exists>products.
      Body (w (run request fair init)) =
        [JSON (JObject [(''products'', products),
                        (''slow_status'', JNumber 200),
                        (''slow_message'',
                         JString (''Slow API response at 2024-05-01T10:00:00Z'' @ [CHR 0x0A])),
                        (''process_status'', JString ''success'')])])"
proof -
  have h: "HandleSlowAPI (now request) NewRecorder =
     (\<lparr>Code = 200, HeaderMap = [],
       Body = [''Slow API response at 2024-05-01T10:00:00Z'' @ [CHR 0x0A]],
       wroteHeader = True, snapHeader = []\<rparr>,
      [Sleep 2000])"
    by (simp add: request_def HandleSlowAPI_def NewRecorder_def WriteHeader_def Write_def)
  have r: "\<exists>slow. handler (run request [Handler, Handler, Handler, Handler, Goroutine, Handler] init) =
     Respond (Slice [pen, ink]) ''success'' slow"
    by (simp add: request_def rows_ok_def stage_defs writer_defs run_defs)
  have b: "\<exists>j. Body (w (run request fair init)) = [JSON j] \<and>
      (\<exists>products. j = JObject [(''products'', products), (''slow_status'', JNumber 200),
         (''slow_message'', JString (''Slow API response at 2024-05-01T10:00:00Z'' @ [CHR 0x0A])),
         (''process_status'', JString ''success'')])"
    by (simp add: request_def rows_ok_def pen_def ink_def fair_def stage_defs writer_defs run_defs)
  from r b
    dependent_result_round_trip [OF refl h,
      where sched = "[Handler, Handler, Handler, Handler, Goroutine, Handler]"]
    dependent_result_round_trip [OF refl h, where sched = fair]
    h
  show ?thesis by (cases "handler (run request [Handler, Handler, Handler, Handler, Goroutine, Handler] init)") auto
qed

text \<open>
  Claim C10, as amended. When the query gives a cursor with no row and no error,
  \<open>GetAllProducts\<close> returns the nil slice and no error. Every JSON document the
  handler then writes goes out under status 200 and has \<open>null\<close> as its \<open>products\<close>,
  not an empty array. When validation and processing return no error as well, the
  handler returns with status 200 and exactly that document as body, under every
  schedule that gives the handler four turns, then the goroutine one, then the
  handler two.
\<close>

theorem empty_table_serializes_null:
  assumes "DB e = Some (Inr rows)" and "Next rows = []" and "Err rows = None"
  shows "fst (GetAllProducts (DB e)) = (nil, None) \<and>
         (\<forall>j. JSON j \<in> set (Body (w (run e sched init))) \<longrightarrow>
            Code (w (run e sched init)) = 200 \<and>
            j = JObject [(''products'', JNull),
                         (''slow_status'', JNumber 200),
                         (''slow_message'', JString (''Slow API response at '' @ now e @ [CHR 0x0A])),
                         (''process_status'', JString ''success'')]) \<and>
         (fst (validateRequest (draw_validateRequest e)) = None \<and>
          snd (fst (processData (draw_processData e) nil)) = None \<longrightarrow>
            (handler (run e sched init) = Returned \<longrightarrow>
               Code (w (run e sched init)) = 200 \<and>
               Body (w (run e sched init)) =
                 [JSON (JObject
                    [(''products'', JNull),
                     (''slow_status'', JNumber 200),
                     (''slow_message'', JString (''Slow API response at '' @ now e @ [CHR 0x0A])),
                     (''process_status'', JString ''success'')])]) \<and>
            (4 \<le> count_list a Handler \<and> 2 \<le> count_list b Handler \<longrightarrow>
               handler (run e (a @ Goroutine # b) init) = Returned))"
proof (intro conjI allI impI)
  let ?s = "run e sched init"
  let ?j = "JObject [(''products'', JNull),
                     (''slow_status'', JNumber 200),
                     (''slow_message'', JString (''Slow API response at '' @ now e @ [CHR 0x0A])),
                     (''process_status'', JString ''success'')]"
  have c: "coherent e ?s" by (rule coherent_reachable)
  show f: "fst (GetAllProducts (DB e)) = (nil, None)"
    using assms by (simp add: GetAllProducts_def)
  have m: "marshal_Response \<lparr>Products = nil, SlowStatus = status (dependent_result e),
        SlowMessage = msg (dependent_result e), ProcessStatus = ''success''\<rparr> = Inr ?j"
    by (simp add: marshal_Response_def dependent_result_eq)
  {
    fix j
    assume j: "JSON j \<in> set (Body (w ?s))"
    have r: "handler ?s = Returned"
    proof (rule ccontr)
      assume "handler ?s \<noteq> Returned"
      with c have "w ?s = NewRecorder"
        by (cases "handler ?s") (auto simp: coherent_def Let_def split: prod.splits)
      with j show False by (simp add: Body_NewRecorder)
    qed
    have p: "fst (validateRequest (draw_validateRequest e)) = None \<and>
        snd (fst (processData (draw_processData e) nil)) = None"
      using c r f j
      by (auto simp: coherent_def Let_def http_Error_NewRecorder
          split: prod.splits option.splits sum.splits)
    with c f r show k: "Code (w ?s) = 200" by (simp add: coherent_all_ok)
    from coherent_Returned_200 [OF c r k f] m j show "j = ?j" by simp
  }
  {
    assume p: "fst (validateRequest (draw_validateRequest e)) = None \<and>
        snd (fst (processData (draw_processData e) nil)) = None"
      and r: "handler ?s = Returned"
    with c f show k: "Code (w ?s) = 200" by (simp add: coherent_all_ok)
    from coherent_Returned_200 [OF c r k f] m show "Body (w ?s) = [JSON ?j]" by simp
  }
  assume "4 \<le> count_list a Handler \<and> 2 \<le> count_list b Handler"
  then show "handler (run e (a @ Goroutine # b) init) = Returned"
    by (simp add: handler_returns)
qed

theorem empty_table_serializes_null_witness:
  "DB empty_table = Some (Inr \<lparr>Next = [], Err = None\<rparr>) \<and>
   fst (GetAllProducts (DB empty_table)) = (nil, None) \<and>
   fst (validateRequest (draw_validateRequest empty_table)) = None \<and>
   snd (fst (processData (draw_processData empty_table) nil)) = None \<and>
   handler (run empty_table fair init) = Returned \<and>
   Code (w (run empty_table fair init)) = 200 \<and>
   Body (w (run empty_table fair init)) =
     [JSON (JObject
        [(''products'', JNull),
         (''slow_status'', JNumber 200),
         (''slow_message'', JString (''Slow API response at 2024-05-01T10:00:00Z'' @ [CHR 0x0A])),
         (''process_status'', JString ''success'')])]"
proof -
  have d: "DB empty_table = Some (Inr \<lparr>Next = [], Err = None\<rparr>)"
    by (simp add: empty_table_def)
  have v: "fst (validateRequest (draw_validateRequest empty_table)) = None \<and>
      snd (fst (processData (draw_processData empty_table) nil)) = None"
    by (simp add: empty_table_def request_def validateRequest_def processData_def)
  have n: "now empty_table = ''2024-05-01T10:00:00Z''"
    by (simp add: empty_table_def request_def)
  have s: "fair = [Handler, Handler, Handler, Handler] @ Goroutine # [Handler, Handler]"
    by (simp add: fair_def)
  have k: "4 \<le> count_list [Handler, Handler, Handler, Handler] Handler \<and>
      2 \<le> count_list [Handler, Handler] Handler"
    by simp
  have n1: "Next \<lparr>Next = [], Err = None\<rparr> = []" and n2: "Err \<lparr>Next = [], Err = None\<rparr> = None"
    by simp_all
  note t = empty_table_serializes_null [OF d n1 n2, where sched = fair
      and a = "[Handler, Handler, Handler, Handler]" and b = "[Handler, Handler]"]
  note t3 = t [THEN conjunct2, THEN conjunct2]
  from t3 [THEN mp, OF v, THEN conjunct2, THEN mp, OF k]
  have r: "handler (run empty_table fair init) = Returned" by (simp only: s)
  from t3 [THEN mp, OF v, THEN conjunct1, THEN mp, OF r]
  have "Code (w (run empty_table fair init)) = 200 \<and>
   Body (w (run empty_table fair init)) =
     [JSON (JObject
        [(''products'', JNull),
         (''slow_status'', JNumber 200),
         (''slow_message'', JString (''Slow API response at 2024-05-01T10:00:00Z'' @ [CHR 0x0A])),
         (''process_status'', JString ''success'')])]"
    by (simp add: n)
  with t [THEN conjunct1] d v r show ?thesis by simp
qed

text \<open>
  Claim C10 as stated fails where the processing stage fails: the fetch has
  succeeded on a table with no rows, and the handler answers 500.
\<close>

theorem empty_table_counterexample:
  "fst (validateRequest (draw_validateRequest empty_unprocessed)) = None \<and>
   fst (GetAllProducts (DB empty_unprocessed)) = (nil, None) \<and>
   handler (run empty_unprocessed fair init) = Returned \<and>
   Code (w (run empty_unprocessed fair init)) = 500 \<and>
   Body (w (run empty_unprocessed fair init)) =
     [Text (''Failed to process data: data processing failed'' @ [CHR 0x0A])]"
  by (simp add: empty_unprocessed_def empty_table_def request_def fair_def
      stage_defs writer_defs run_defs)

section \<open>Order of the stages\<close>

lemma validateRequest_events:
  "ev \<in> set (snd (validateRequest d)) \<Longrightarrow>
   ev \<noteq> Go \<and> ev \<noteq> Start ''processData'' \<and> ev \<noteq> Sleep 2000"
  by (auto simp: validateRequest_def Let_def split: if_splits)

lemma GetAllProducts_events:
  "ev \<in> set (snd (GetAllProducts db)) \<Longrightarrow>
   ev \<noteq> Go \<and> ev \<noteq> Start ''processData'' \<and> ev \<noteq> Sleep 2000"
  by (auto simp: GetAllProducts_def Let_def split: option.splits sum.splits)

lemma GetAllProducts_ends: "End ''GetAllProducts'' \<in> set (snd (GetAllProducts db))"
  by (auto simp: GetAllProducts_def Let_def split: option.splits sum.splits)

lemma processData_ends: "End ''processData'' \<in> set (snd (processData d ps))"
  by (simp add: processData_def Let_def)

lemma append_eq_first_occurrence:
  assumes "xs @ ys = pre @ ev # post" and "ev \<notin> set xs"
  shows "set xs \<subseteq> set pre"
proof -
  from assms(1) obtain us where
    "(xs = pre @ us \<and> us @ ys = ev # post) \<or> (xs @ us = pre \<and> ys = us @ ev # post)"
    by (auto simp: append_eq_append_conv2)
  then show ?thesis
  proof
    assume h: "xs = pre @ us \<and> us @ ys = ev # post"
    show ?thesis
    proof (cases us)
      case Nil
      with h show ?thesis by simp
    next
      case (Cons u us')
      with h have "ev \<in> set xs" by simp
      with assms(2) show ?thesis by simp
    qed
  next
    assume "xs @ us = pre \<and> ys = us @ ev # post"
    then show ?thesis by auto
  qed
qed

lemma fetch_ends_before_fan_out:
  assumes "traced e s" and "coherent e s" and "tr s = pre @ ev # post"
    and "ev = Go \<or> ev = Start ''processData'' \<or> ev = Sleep 2000"
  shows "End ''GetAllProducts'' \<in> set pre"
proof -
  obtain verr tv where v: "validateRequest (draw_validateRequest e) = (verr, tv)"
    by (cases "validateRequest (draw_validateRequest e)")
  obtain ps ferr tf where f: "GetAllProducts (DB e) = ((ps, ferr), tf)"
    by (cases "GetAllProducts (DB e)") auto
  let ?t2 = "Start ''GetProductsHandler'' # tv @ tf"
  have nv: "ev \<notin> set tv"
    using validateRequest_events [of ev "draw_validateRequest e"] v assms(4) by auto
  have nf: "ev \<notin> set tf"
    using GetAllProducts_events [of ev "DB e"] f assms(4) by auto
  have n2: "ev \<notin> set ?t2" using nv nf assms(4) by auto
  have e2: "End ''GetAllProducts'' \<in> set ?t2"
    using GetAllProducts_ends [of "DB e"] f by simp
  have m: "ev \<in> set (tr s)" using assms(3) by simp
  show ?thesis
  proof (cases "goroutine s = NotStarted")
    case True
    with assms(1) v f m nv nf assms(4) have False
      by (cases "handler s")
        (auto simp: traced_def Let_def split: option.splits)
    then show ?thesis ..
  next
    case False
    with assms(1) v f have "prefix (?t2 @ [Go]) (tr s)"
      by (cases "goroutine s") (auto simp: traced_def Let_def)
    then obtain rest where "tr s = ?t2 @ Go # rest"
      by (auto simp: prefix_def)
    with assms(3) have "?t2 @ Go # rest = pre @ ev # post" by simp
    then have "set ?t2 \<subseteq> set pre" using n2 by (rule append_eq_first_occurrence)
    with e2 show ?thesis by blast
  qed
qed

lemma processed_turn:
  assumes "\<forall>ps st. handler s = Step5 ps st \<longrightarrow> End ''processData'' \<in> set (tr s)"
  shows "\<forall>ps st. handler (turn e t s) = Step5 ps st \<longrightarrow> End ''processData'' \<in> set (tr (turn e t s))"
proof (cases t)
  case Handler
  show ?thesis
  proof (cases "handler s")
    case (Step4 ps)
    with Handler show ?thesis
      using processData_ends [of "draw_processData e" ps]
      by (auto simp: turn_def step_def GetProductsHandler_def Let_def
          split: prod.splits option.splits)
  next
    case (Step5 ps st)
    with Handler assms show ?thesis
      by (auto simp: turn_def step_def GetProductsHandler_def handoff_def
          split: goroutine_pc.splits)
  qed (use Handler in \<open>auto simp: turn_def step_def GetProductsHandler_def Let_def
        split: prod.splits option.splits\<close>)
next
  case Goroutine
  with assms show ?thesis
    by (cases "goroutine s"; cases "handler s")
      (auto simp: turn_def step_def goroutine_step_def handoff_def Let_def split: prod.splits)
qed

lemma processed_reachable:
  "\<forall>ps st. handler (run e sched init) = Step5 ps st \<longrightarrow>
     End ''processData'' \<in> set (tr (run e sched init))"
proof (rule run_invariant
    [where P = "\<lambda>s :: state. \<forall>ps st. handler s = Step5 ps st \<longrightarrow> End ''processData'' \<in> set (tr s)"])
  show "\<forall>ps st. handler init = Step5 ps st \<longrightarrow> End ''processData'' \<in> set (tr init)"
    by (simp add: init_def)
next
  fix s :: state and t
  assume "\<forall>ps st. handler s = Step5 ps st \<longrightarrow> End ''processData'' \<in> set (tr s)"
  then show "\<forall>ps st. handler (turn e t s) = Step5 ps st \<longrightarrow>
      End ''processData'' \<in> set (tr (turn e t s))"
    by (rule processed_turn)
qed

text \<open>
  Claim C8. In every state that a schedule can reach: (1) whatever stands in the
  trace before the \<open>go\<close> statement, before the start of \<open>processData\<close>'s span or
  before the sleep of \<open>HandleSlowAPI\<close> includes the end of \<open>GetAllProducts\<close>' span;
  (2) the \<open>go\<close> statement is one step of the handler, which starts the goroutine
  and leaves the handler at the call of \<open>processData\<close>; (3) there the handler runs
  \<open>processData\<close> itself, whatever the goroutine does, and the goroutine, if it has
  not run yet, can start \<open>HandleSlowAPI\<close>: either may go first; (4) the handler is
  at the receive from \<open>slowChan\<close> only when \<open>processData\<close> has ended and returned no
  error, and there it cannot move until the goroutine is at its send: the receive
  has no other way out.
\<close>

theorem fan_out_ordering:
  assumes "s = run e sched init"
  shows "(\<forall>pre ev post. tr s = pre @ ev # post \<and>
            (ev = Go \<or> ev = Start ''processData'' \<or> ev = Sleep 2000) \<longrightarrow>
            End ''GetAllProducts'' \<in> set pre) \<and>
         (\<forall>products. handler s = Step3 products \<longrightarrow>
            goroutine s = NotStarted \<and>
            step e Handler s =
              Some (s\<lparr>handler := Step4 products, goroutine := Calling, tr := tr s @ [Go]\<rparr>)) \<and>
         (\<forall>products. handler s = Step4 products \<longrightarrow>
            (\<exists>s'. step e Handler s = Some s' \<and>
               prefix (tr s @ snd (processData (draw_processData e) products)) (tr s')) \<and>
            (goroutine s = Calling \<longrightarrow>
               (\<exists>s'. step e Goroutine s = Some s' \<and> tr s' = tr s @ [Sleep 2000]))) \<and>
         (\<forall>products processStatus. handler s = Step5 products processStatus \<longrightarrow>
            fst (processData (draw_processData e) products) = (processStatus, None) \<and>
            End ''processData'' \<in> set (tr s) \<and>
            (step e Handler s = None \<longleftrightarrow> (\<forall>slow. goroutine s \<noteq> Sending slow)))"
proof (intro conjI allI impI)
  have c: "coherent e s" unfolding assms by (rule coherent_reachable)
  have t: "traced e s" unfolding assms by (rule traced_reachable)
  {
    fix pre ev post
    assume "tr s = pre @ ev # post \<and>
        (ev = Go \<or> ev = Start ''processData'' \<or> ev = Sleep 2000)"
    with t c show "End ''GetAllProducts'' \<in> set pre"
      by (blast intro: fetch_ends_before_fan_out)
  }
  {
    fix products
    assume h: "handler s = Step3 products"
    with c show "goroutine s = NotStarted"
      by (simp add: coherent_def Let_def split: prod.splits)
    from h show "step e Handler s =
        Some (s\<lparr>handler := Step4 products, goroutine := Calling, tr := tr s @ [Go]\<rparr>)"
      by (simp add: step_def GetProductsHandler_def)
  }
  {
    fix products
    assume h: "handler s = Step4 products"
    then show "\<exists>s'. step e Handler s = Some s' \<and>
        prefix (tr s @ snd (processData (draw_processData e) products)) (tr s')"
      by (auto simp: step_def GetProductsHandler_def Let_def split: prod.splits option.splits)
    assume "goroutine s = Calling"
    then show "\<exists>s'. step e Goroutine s = Some s' \<and> tr s' = tr s @ [Sleep 2000]"
      by (simp add: step_def goroutine_step_def HandleSlowAPI_def Let_def)
  }
  fix products processStatus
  assume h: "handler s = Step5 products processStatus"
  with c show "fst (processData (draw_processData e) products) = (processStatus, None)"
    by (auto simp: coherent_def Let_def split: prod.splits)
  from h show "End ''processData'' \<in> set (tr s)"
    unfolding assms using processed_reachable by blast
  from h show "step e Handler s = None \<longleftrightarrow> (\<forall>slow. goroutine s \<noteq> Sending slow)"
    by (cases "goroutine s") (auto simp: step_def GetProductsHandler_def)
qed


theorem fan_out_ordering_witness:
  "tr (run request [Handler, Handler, Handler] init) =
     [Start ''GetProductsHandler'', Start ''validateRequest'', Sleep 1000, End ''validateRequest'',
      Start ''GetAllProducts'', QueryContext ''SELECT id, name, quantity, price FROM products'',
      SetAttributes ''GetAllProducts'' ''product_count'' (attribute_Int 2), RowsClose,
      End ''GetAllProducts''] @ Go # [] \<and>
   End ''GetAllProducts'' \<in> set
     [Start ''GetProductsHandler'', Start ''validateRequest'', Sleep 1000, End ''validateRequest'',
      Start ''GetAllProducts'', QueryContext ''SELECT id, name, quantity, price FROM products'',
      SetAttributes ''GetAllProducts'' ''product_count'' (attribute_Int 2), RowsClose,
      End ''GetAllProducts''] \<and>
   handler (run request [Handler, Handler] init) = Step3 (Slice [pen, ink]) \<and>
   goroutine (run request [Handler, Handler] init) = NotStarted \<and>
   handler (run request [Handler, Handler, Handler] init) = Step4 (Slice [pen, ink]) \<and>
   goroutine (run request [Handler, Handler, Handler] init) = Calling \<and>
   step request Handler (run request [Handler, Handler, Handler] init) \<noteq> None \<and>
   step request Goroutine (run request [Handler, Handler, Handler] init) \<noteq> None \<and>
   handler (run request [Handler, Handler, Handler, Handler] init) =
     Step5 (Slice [pen, ink]) ''success'' \<and>
   goroutine (run request [Handler, Handler, Handler, Handler] init) = Calling \<and>
   fst (processData (draw_processData request) (Slice [pen, ink])) = (''success'', None) \<and>
   End ''processData'' \<in> set (tr (run request [Handler, Handler, Handler, Handler] init)) \<and>
   step request Handler (run request [Handler, Handler, Handler, Handler] init) = None"
proof -
  let ?pre = "[Start ''GetProductsHandler'', Start ''validateRequest'', Sleep 1000,
      End ''validateRequest'', Start ''GetAllProducts'',
      QueryContext ''SELECT id, name, quantity, price FROM products'',
      SetAttributes ''GetAllProducts'' ''product_count'' (attribute_Int 2), RowsClose,
      End ''GetAllProducts'']"
  have t3: "tr (run request [Handler, Handler, Handler] init) = ?pre @ Go # []"
    by (simp add: request_def rows_ok_def stage_defs run_defs)
  have h2: "handler (run request [Handler, Handler] init) = Step3 (Slice [pen, ink])"
    by (simp add: request_def rows_ok_def stage_defs run_defs)
  have h3: "handler (run request [Handler, Handler, Handler] init) = Step4 (Slice [pen, ink])"
    by (simp add: request_def rows_ok_def stage_defs run_defs)
  have g3: "goroutine (run request [Handler, Handler, Handler] init) = Calling"
    by (simp add: request_def rows_ok_def stage_defs run_defs)
  have h4: "handler (run request [Handler, Handler, Handler, Handler] init) =
      Step5 (Slice [pen, ink]) ''success''"
    by (simp add: request_def rows_ok_def stage_defs run_defs)
  have g4: "goroutine (run request [Handler, Handler, Handler, Handler] init) = Calling"
    by (simp add: request_def rows_ok_def stage_defs run_defs)
  note a = fan_out_ordering [OF refl, where e = request and sched = "[Handler, Handler]"]
  note b = fan_out_ordering [OF refl, where e = request and sched = "[Handler, Handler, Handler]"]
  note c = fan_out_ordering [OF refl, where e = request
      and sched = "[Handler, Handler, Handler, Handler]"]
  from b [THEN conjunct1, rule_format, of ?pre Go "[]"] t3
  have 1: "End ''GetAllProducts'' \<in> set ?pre" by blast
  from a [THEN conjunct2, THEN conjunct1, rule_format, OF h2]
  have 2: "goroutine (run request [Handler, Handler] init) = NotStarted" by blast
  from b [THEN conjunct2, THEN conjunct2, THEN conjunct1, rule_format, OF h3] g3
  have 3: "step request Handler (run request [Handler, Handler, Handler] init) \<noteq> None \<and>
      step request Goroutine (run request [Handler, Handler, Handler] init) \<noteq> None"
    by auto
  from c [THEN conjunct2, THEN conjunct2, THEN conjunct2, rule_format, OF h4] g4
  have 4: "fst (processData (draw_processData request) (Slice [pen, ink])) = (''success'', None) \<and>
      End ''processData'' \<in> set (tr (run request [Handler, Handler, Handler, Handler] init)) \<and>
      step request Handler (run request [Handler, Handler, Handler, Handler] init) = None"
    by auto
  from t3 1 h2 2 h3 g3 3 h4 g4 4 show ?thesis by blast
qed

section \<open>The abandoned goroutine\<close>

lemma blocked_forever:
  assumes "handler s = Returned" and "goroutine s = Sending slow"
  shows "run e sched s = s"
proof (induction sched)
  case Nil
  show ?case by simp
next
  case (Cons t ts)
  have "turn e t s = s"
    using assms by (cases t) (simp_all add: turn_def step_def GetProductsHandler_def goroutine_step_def)
  with Cons show ?case by simp
qed

lemma never_Exited:
  assumes "fst (validateRequest (draw_validateRequest e)) = None"
    and "fst (GetAllProducts (DB e)) = (products, None)"
    and "fst (processData (draw_processData e) products) = (processStatus, Some err)"
  shows "goroutine (run e sched init) \<noteq> Exited"
  using coherent_Returned_failed [OF coherent_reachable assms] by simp

text \<open>
  Claim C9 does not hold of the code. When \<open>processData\<close> fails, the handler
  returns without receiving from \<open>slowChan\<close>. The goroutine finishes
  \<open>HandleSlowAPI\<close> and reaches its send; the channel has no buffer and no receiver
  is left, so it can take no step there, under any schedule, and it never exits.
\<close>

theorem abandoned_goroutine_blocks:
  "fst (validateRequest (draw_validateRequest unprocessed)) = None \<and>
   fst (GetAllProducts (DB unprocessed)) = (Slice [pen, ink], None) \<and>
   fst (processData (draw_processData unprocessed) (Slice [pen, ink])) =
     (''failed'', Some ''data processing failed'') \<and>
   handler (run unprocessed [Handler, Handler, Handler, Handler, Goroutine] init) = Returned \<and>
   goroutine (run unprocessed [Handler, Handler, Handler, Handler, Goroutine] init) =
     Sending \<lparr>status = 200, msg = ''Slow API response at 2024-05-01T10:00:00Z'' @ [CHR 0x0A]\<rparr> \<and>
   step unprocessed Goroutine
     (run unprocessed [Handler, Handler, Handler, Handler, Goroutine] init) = None \<and>
   (\<forall>sched. run unprocessed sched
      (run unprocessed [Handler, Handler, Handler, Handler, Goroutine] init) =
      run unprocessed [Handler, Handler, Handler, Handler, Goroutine] init) \<and>
   (\<forall>sched. goroutine (run unprocessed sched init) \<noteq> Exited)"
proof -
  let ?s = "run unprocessed [Handler, Handler, Handler, Handler, Goroutine] init"
  have v: "fst (validateRequest (draw_validateRequest unprocessed)) = None"
    by (simp add: unprocessed_def request_def validateRequest_def)
  have f: "fst (GetAllProducts (DB unprocessed)) = (Slice [pen, ink], None)"
    by (simp add: unprocessed_def request_def rows_ok_def GetAllProducts_def)
  have p: "fst (processData (draw_processData unprocessed) (Slice [pen, ink])) =
      (''failed'', Some ''data processing failed'')"
    by (simp add: unprocessed_def request_def processData_def)
  have h: "handler ?s = Returned"
    by (simp add: unprocessed_def request_def rows_ok_def stage_defs run_defs)
  have g: "goroutine ?s =
      Sending \<lparr>status = 200, msg = ''Slow API response at 2024-05-01T10:00:00Z'' @ [CHR 0x0A]\<rparr>"
    by (simp add: unprocessed_def request_def rows_ok_def stage_defs run_defs writer_defs)
  from h g have b: "step unprocessed Goroutine ?s = None"
    by (simp add: step_def goroutine_step_def)
  from h g have r: "\<forall>sched. run unprocessed sched ?s = ?s"
    by (simp add: blocked_forever)
  have n: "\<forall>sched. goroutine (run unprocessed sched init) \<noteq> Exited"
    using never_Exited [OF v f p] by simp
  from v f p h g b r n show ?thesis by blast
qed

section \<open>Closing the spans\<close>

lemma spans_append [simp]: "spans (xs @ ys) = spans xs @ spans ys"
  by (simp add: spans_def)

lemma spans_Cons_span [simp]: "is_span x \<Longrightarrow> spans (x # xs) = x # spans xs"
  by (simp add: spans_def)

lemma spans_Cons_other [simp]: "\<not> is_span x \<Longrightarrow> spans (x # xs) = spans xs"
  by (simp add: spans_def)

lemma spans_Nil [simp]: "spans [] = []"
  by (simp add: spans_def)

lemma spanned_init: "spanned e init"
  by (simp add: spanned_def init_def Let_def split: prod.splits)

lemma spanned_handler:
  assumes "spanned e s" and "coherent e s" and "GetProductsHandler e s = Some s'"
  shows "spanned e s'"
proof (cases "handler s")
  case Step1
  with assms show ?thesis
    by (auto simp: spanned_def GetProductsHandler_def Let_def split: prod.splits option.splits)
next
  case Step2
  with assms show ?thesis
    by (auto simp: spanned_def coherent_def GetProductsHandler_def Let_def
        split: prod.splits option.splits)
next
  case (Step3 ps)
  with assms show ?thesis
    by (auto simp: spanned_def coherent_def GetProductsHandler_def Let_def
        split: prod.splits option.splits)
next
  case (Step4 ps)
  with assms show ?thesis
    by (auto simp: spanned_def coherent_def GetProductsHandler_def Let_def
        split: prod.splits option.splits)
next
  case (Step5 ps st)
  with assms show ?thesis
    by (auto simp: spanned_def coherent_def GetProductsHandler_def handoff_def Let_def
        split: prod.splits option.splits goroutine_pc.splits)
next
  case (Respond ps st sl)
  with assms show ?thesis
    by (auto simp: spanned_def coherent_def GetProductsHandler_def Let_def Encode_def
        split: prod.splits option.splits sum.splits)
next
  case Returned
  with assms show ?thesis by (simp add: GetProductsHandler_def)
qed

lemma spanned_same:
  assumes "spanned e s" and "handler s' = handler s" and "spans (tr s') = spans (tr s)"
  shows "spanned e s'"
  using assms(1) unfolding spanned_def assms(2,3) .

lemma spanned_goroutine:
  assumes "spanned e s" and "goroutine_step e s = Some s'"
  shows "spanned e s'"
proof (cases "goroutine s")
  case NotStarted
  with assms show ?thesis by (simp add: goroutine_step_def)
next
  case Calling
  with assms(2) have "handler s' = handler s" and "spans (tr s') = spans (tr s)"
    by (auto simp: goroutine_step_def HandleSlowAPI_def Let_def)
  with assms(1) show ?thesis by (rule spanned_same)
next
  case (Sending sl)
  with assms show ?thesis
    by (cases "handler s")
      (auto simp: spanned_def goroutine_step_def handoff_def Let_def split: prod.splits)
next
  case Exited
  with assms show ?thesis by (simp add: goroutine_step_def)
qed

lemma spanned_turn:
  "coherent e s \<and> spanned e s \<Longrightarrow> coherent e (turn e t s) \<and> spanned e (turn e t s)"
  by (cases t)
    (auto simp: turn_def step_def
      intro: coherent_handler coherent_goroutine spanned_handler spanned_goroutine
      split: option.splits)

lemma spanned_reachable: "spanned e (run e sched init)"
proof -
  have "coherent e (run e sched init) \<and> spanned e (run e sched init)"
  proof (rule run_invariant)
    show "coherent e init \<and> spanned e init" by (simp add: coherent_init spanned_init)
  next
    fix s t
    assume "coherent e s \<and> spanned e s"
    then show "coherent e (turn e t s) \<and> spanned e (turn e t s)" by (rule spanned_turn)
  qed
  then show ?thesis ..
qed


lemma count_list_spans: "is_span x \<Longrightarrow> count_list (spans t) x = count_list t x"
  by (induction t) (auto simp: spans_def)

lemma set_spans: "set (spans t) \<subseteq> set t"
  by (auto simp: spans_def)

lemma validateRequest_counts:
  "count_list (snd (validateRequest d)) (Start name) = (if name = ''validateRequest'' then 1 else 0) \<and>
   count_list (snd (validateRequest d)) (End name) = (if name = ''validateRequest'' then 1 else 0)"
  by (simp add: validateRequest_def Let_def)

lemma GetAllProducts_counts:
  "count_list (snd (GetAllProducts db)) (Start name) = (if name = ''GetAllProducts'' then 1 else 0) \<and>
   count_list (snd (GetAllProducts db)) (End name) =
     (if name = ''GetAllProducts'' then (if db = None then 2 else 1) else 0)"
  by (simp add: GetAllProducts_def Let_def split: option.splits sum.splits)

lemma processData_counts:
  "count_list (snd (processData d ps)) (Start name) = (if name = ''processData'' then 1 else 0) \<and>
   count_list (snd (processData d ps)) (End name) = (if name = ''processData'' then 1 else 0)"
  by (simp add: processData_def Let_def)

text \<open>
  With an open store handle every span of a stage is ended as often as it was
  started, at most once, and the end of the handler's own span is the last call on
  any span.
\<close>

lemma spans_closed_once:
  assumes "DB e \<noteq> None" and "s = run e sched init" and "handler s = Returned"
    and "name = ''validateRequest'' \<or> name = ''GetAllProducts'' \<or> name = ''processData''"
  shows "\<exists>xs. spans (tr s) = xs @ [End ''GetProductsHandler''] \<and>
           count_list xs (End name) = count_list xs (Start name) \<and>
           count_list xs (Start name) \<le> 1"
proof -
  have sp: "spanned e s" unfolding assms(2) by (rule spanned_reachable)
  obtain verr tv where v: "validateRequest (draw_validateRequest e) = (verr, tv)"
    by (cases "validateRequest (draw_validateRequest e)")
  obtain ps ferr tf where f: "GetAllProducts (DB e) = ((ps, ferr), tf)"
    by (cases "GetAllProducts (DB e)") auto
  obtain st perr tp where p: "processData (draw_processData e) ps = ((st, perr), tp)"
    by (cases "processData (draw_processData e) ps") auto
  have cv: "count_list (spans tv) (Start name) = (if name = ''validateRequest'' then 1 else 0) \<and>
      count_list (spans tv) (End name) = (if name = ''validateRequest'' then 1 else 0)"
    using validateRequest_counts [of "draw_validateRequest e" name] v
    by (simp add: count_list_spans)
  have cf: "count_list (spans tf) (Start name) = (if name = ''GetAllProducts'' then 1 else 0) \<and>
      count_list (spans tf) (End name) = (if name = ''GetAllProducts'' then 1 else 0)"
    using GetAllProducts_counts [of "DB e" name] f assms(1)
    by (auto simp: count_list_spans)
  have cp: "count_list (spans tp) (Start name) = (if name = ''processData'' then 1 else 0) \<and>
      count_list (spans tp) (End name) = (if name = ''processData'' then 1 else 0)"
    using processData_counts [of "draw_processData e" ps name] p
    by (simp add: count_list_spans)
  let ?t1 = "Start ''GetProductsHandler'' # spans tv"
  let ?t2 = "?t1 @ spans tf"
  let ?t4 = "?t2 @ spans tp"
  let ?a = "\<lambda>err. SetAttributes ''GetProductsHandler'' ''error'' (attribute_String err)"
  from sp assms(3) v f p have
    "(\<exists>err. spans (tr s) = (?t1 @ [?a err]) @ [End ''GetProductsHandler'']) \<or>
     (\<exists>err. spans (tr s) = (?t2 @ [?a err]) @ [End ''GetProductsHandler'']) \<or>
     (\<exists>err. spans (tr s) = (?t4 @ [?a err]) @ [End ''GetProductsHandler'']) \<or>
     spans (tr s) = ?t4 @ [End ''GetProductsHandler'']"
    by (auto simp: spanned_def Let_def split: option.splits sum.splits)
  then show ?thesis
  proof (elim disjE exE)
    fix err
    assume "spans (tr s) = (?t1 @ [?a err]) @ [End ''GetProductsHandler'']"
    moreover have "count_list (?t1 @ [?a err]) (End name) = count_list (?t1 @ [?a err]) (Start name) \<and>
        count_list (?t1 @ [?a err]) (Start name) \<le> 1"
      using cv assms(4) by auto
    ultimately show ?thesis by blast
  next
    fix err
    assume "spans (tr s) = (?t2 @ [?a err]) @ [End ''GetProductsHandler'']"
    moreover have "count_list (?t2 @ [?a err]) (End name) = count_list (?t2 @ [?a err]) (Start name) \<and>
        count_list (?t2 @ [?a err]) (Start name) \<le> 1"
      using cv cf assms(4) by auto
    ultimately show ?thesis by blast
  next
    fix err
    assume "spans (tr s) = (?t4 @ [?a err]) @ [End ''GetProductsHandler'']"
    moreover have "count_list (?t4 @ [?a err]) (End name) = count_list (?t4 @ [?a err]) (Start name) \<and>
        count_list (?t4 @ [?a err]) (Start name) \<le> 1"
      using cv cf cp assms(4) by auto
    ultimately show ?thesis by blast
  next
    assume "spans (tr s) = ?t4 @ [End ''GetProductsHandler'']"
    moreover have "count_list ?t4 (End name) = count_list ?t4 (Start name) \<and>
        count_list ?t4 (Start name) \<le> 1"
      using cv cf cp assms(4) by auto
    ultimately show ?thesis by blast
  qed
qed

text \<open>
  Claim C5 does not hold of the code. On the branch of \<open>GetAllProducts\<close> for a nil
  \<open>DB\<close>, \<open>span.End()\<close> is called in the branch and again by the deferred call: the
  span that was started once is ended twice before the handler's span ends. (What
  a tracer makes of the second call is not in this code; the trace counts the calls.)
\<close>

theorem uninitialized_store_ends_span_twice:
  "DB uninitialized = None \<and>
   handler (run uninitialized [Handler, Handler] init) = Returned \<and>
   tr (run uninitialized [Handler, Handler] init) =
     [Start ''GetProductsHandler'',
      Start ''validateRequest'', Sleep 1000, End ''validateRequest'',
      Start ''GetAllProducts'',
      SetAttributes ''GetAllProducts'' ''error'' (attribute_String ''database not initialized''),
      End ''GetAllProducts'',
      End ''GetAllProducts'',
      SetAttributes ''GetProductsHandler'' ''error''
        (attribute_String ''database connection not initialized; call InitDB first''),
      End ''GetProductsHandler''] \<and>
   count_list (tr (run uninitialized [Handler, Handler] init)) (Start ''GetAllProducts'') = 1 \<and>
   count_list (tr (run uninitialized [Handler, Handler] init)) (End ''GetAllProducts'') = 2"
  by (simp add: uninitialized_def request_def stage_defs run_defs)

end
